theory Spec2Isabelle
  imports Complex_Main "HOL-Library.Char_ord" "HOL-Library.List_Lexorder" "HOL-Library.AList"
begin

section \<open>The dashboard's cost allocation and windowing logic (Dashboard.jsx)\<close>

text \<open>
  The model follows \<^verbatim>\<open>src/frontend/src/components/Dashboard.jsx\<close>.
  Conventions of the embedding:
  \<^item> JavaScript numbers that carry money are exact rationals (\<^typ>\<open>rat\<close>); the rounding
    of IEEE doubles in additions and divisions is not part of the model.
  \<^item> The numbers produced by \<^verbatim>\<open>Number(...)\<close> and \<^verbatim>\<open>parseInt(...)\<close> on pieces of a date
    string are \<^typ>\<open>int option\<close>, with \<open>None\<close> for \<^verbatim>\<open>NaN\<close>. A missing array element
    (\<^verbatim>\<open>undefined\<close>) behaves like \<^verbatim>\<open>NaN\<close> in every comparison and increment of the
    source and is modelled by \<open>None\<close> too.
  \<^item> Strings are \<^typ>\<open>string\<close>; the comparison operators of JavaScript on strings compare
    code units lexicographically, which is the order of \<open>HOL-Library.List_Lexorder\<close> over
    \<open>HOL-Library.Char_ord\<close>. \<^verbatim>\<open>localeCompare\<close> is modelled by the same order: the keys
    compared are made of digits, \<^verbatim>\<open>-\<close> and \<^verbatim>\<open>Q\<close>, where both orders agree.
  \<^item> A JavaScript object used as a dictionary is an association list in insertion order
    (\<^const>\<open>AList.update\<close> replaces in place or appends, as property assignment does);
    the numeric fields of a row object are a map \<^typ>\<open>string \<rightharpoonup> rat\<close>.
\<close>

subsection \<open>Strings and numbers\<close>

definition is_digit :: "char \<Rightarrow> bool" where
  "is_digit c = (48 \<le> (of_char c :: nat) \<and> (of_char c :: nat) \<le> 57)"

definition digit_val :: "char \<Rightarrow> nat" where
  "digit_val c = of_char c - 48"

definition digit_char :: "nat \<Rightarrow> char" where
  "digit_char d = ''0123456789'' ! d"

text \<open>The value of a string of decimal digits, most significant digit first.\<close>

definition dec_value :: "string \<Rightarrow> nat" where
  "dec_value s = foldl (\<lambda>a c. 10 * a + digit_val c) 0 s"

text \<open>
  \<^verbatim>\<open>Number(s)\<close> on a piece of a split date string. A string of decimal digits is its
  value and the empty string is 0; any other piece is \<^verbatim>\<open>NaN\<close>. (Signs, fractions,
  exponents, hexadecimal literals and surrounding white space, which \<^verbatim>\<open>Number\<close> also
  accepts, do not occur in dates and are outside the model.)
\<close>

definition Number :: "string \<Rightarrow> int option" where
  "Number s = (if list_all is_digit s then Some (int (dec_value s)) else None)"

text \<open>
  \<^verbatim>\<open>parseInt(s)\<close>: the value of the longest prefix of decimal digits, \<^verbatim>\<open>NaN\<close> when there
  is none (leading white space, signs and the \<^verbatim>\<open>0x\<close> prefix are outside the model).
\<close>

definition parseInt :: "string \<Rightarrow> int option" where
  "parseInt s = (if takeWhile is_digit s = [] then None
                 else Some (int (dec_value (takeWhile is_digit s))))"

text \<open>\<^verbatim>\<open>String(n)\<close> for an integer: its decimal digits, with a minus sign when negative.\<close>

function digits_of :: "nat \<Rightarrow> string" where
  "digits_of n = (if n < 10 then [digit_char n] else digits_of (n div 10) @ [digit_char (n mod 10)])"
  by pat_completeness auto
termination
  by (relation "measure (\<lambda>n. n)") auto

declare digits_of.simps [simp del]

definition show_int :: "int \<Rightarrow> string" where
  "show_int i = (if i < 0 then CHR ''-'' # digits_of (nat (- i)) else digits_of (nat i))"

definition num_str :: "int option \<Rightarrow> string" where
  "num_str a = (case a of None \<Rightarrow> ''NaN'' | Some i \<Rightarrow> show_int i)"

text \<open>\<^verbatim>\<open>s.padStart(2, '0')\<close>\<close>

definition padStart2 :: "string \<Rightarrow> string" where
  "padStart2 s = replicate (2 - length s) CHR ''0'' @ s"

text \<open>\<^verbatim>\<open>s.split('-')\<close>: always at least one piece.\<close>

fun split_dash :: "string \<Rightarrow> string list" where
  "split_dash [] = [[]]"
| "split_dash (c # cs) =
     (if c = CHR ''-'' then [] # split_dash cs
      else (case split_dash cs of [] \<Rightarrow> [[c]] | p # ps \<Rightarrow> (c # p) # ps))"

text \<open>
  Element \<open>i\<close> of a destructured array of strings inside a template literal:
  a missing element prints as \<^verbatim>\<open>undefined\<close>.
\<close>

definition piece :: "string list \<Rightarrow> nat \<Rightarrow> string" where
  "piece ps i = (if i < length ps then ps ! i else ''undefined'')"

text \<open>Element \<open>i\<close> of \<^verbatim>\<open>s.split('-').map(Number)\<close>; a missing element is \<^verbatim>\<open>undefined\<close>.\<close>

definition num_piece :: "string list \<Rightarrow> nat \<Rightarrow> int option" where
  "num_piece ps i = (if i < length ps then Number (ps ! i) else None)"

text \<open>The comparisons and the increment of JavaScript numbers, \<open>None\<close> being \<^verbatim>\<open>NaN\<close>.\<close>

definition js_lt :: "int option \<Rightarrow> int option \<Rightarrow> bool" where
  "js_lt a b = (case a of None \<Rightarrow> False | Some x \<Rightarrow> (case b of None \<Rightarrow> False | Some y \<Rightarrow> x < y))"

definition js_le :: "int option \<Rightarrow> int option \<Rightarrow> bool" where
  "js_le a b = (case a of None \<Rightarrow> False | Some x \<Rightarrow> (case b of None \<Rightarrow> False | Some y \<Rightarrow> x \<le> y))"

definition js_eq :: "int option \<Rightarrow> int option \<Rightarrow> bool" where
  "js_eq a b = (case a of None \<Rightarrow> False | Some x \<Rightarrow> (case b of None \<Rightarrow> False | Some y \<Rightarrow> x = y))"

definition js_add :: "int option \<Rightarrow> int \<Rightarrow> int option" where
  "js_add a n = map_option (\<lambda>x. x + n) a"

subsection \<open>Month keys\<close>

text \<open>
  \<^verbatim>\<open>
  function toYearMonth(dateStr) {
    if (!dateStr) return null
    const [y, m] = dateStr.split('-')
    return `${y}-${m}`
  }
  \<close>
  \<open>None\<close> is \<^verbatim>\<open>null\<close>.
\<close>

definition toYearMonth :: "string \<Rightarrow> string option" where
  "toYearMonth dateStr =
     (if dateStr = [] then None
      else Some (piece (split_dash dateStr) 0 @ ''-'' @ piece (split_dash dateStr) 1))"

text \<open>
  \<^verbatim>\<open>
  function toQuarter(ym) {
    const [y, m] = ym.split('-')
    const q = Math.ceil(parseInt(m) / 3)
    return `${y}-Q${q}`
  }
  \<close>
\<close>

definition toQuarter :: "string \<Rightarrow> string" where
  "toQuarter ym =
     piece (split_dash ym) 0 @ ''-Q'' @
     num_str (map_option (\<lambda>n. (n + 2) div 3) (parseInt (piece (split_dash ym) 1)))"

text \<open>The key \<^verbatim>\<open>`${y}-${String(m).padStart(2, '0')}`\<close> that both loops below build.\<close>

definition month_key :: "int option \<Rightarrow> int option \<Rightarrow> string" where
  "month_key y m = num_str y @ ''-'' @ padStart2 (num_str m)"

text \<open>
  \<^verbatim>\<open>
  function getMonthsBetween(startDate, endDate) {
    const [sy, sm] = startDate.split('-').map(Number)
    const [ey, em] = endDate.split('-').map(Number)
    const months = []
    let y = sy, m = sm
    while (y < ey || (y === ey && m <= em)) {
      months.push(`${y}-${String(m).padStart(2, '0')}`)
      m++
      if (m > 12) { m = 1; y++ }
    }
    return months.length > 0 ? months : [toYearMonth(startDate)]
  }
  \<close>
  The loop does not end when the start month is \<^verbatim>\<open>NaN\<close> and the start year is before
  the end year, so it is a partial function: \<open>None\<close> means that it runs forever. A month
  that is not a number is only ever pushed by such a run, so the text it prints as
  (\<^verbatim>\<open>NaN\<close> or \<^verbatim>\<open>undefined\<close>) is never part of a returned list.
\<close>

partial_function (option) months_loop ::
  "int option \<Rightarrow> int option \<Rightarrow> int option \<Rightarrow> int option \<Rightarrow> string list \<Rightarrow> string list option" where
  "months_loop ey em y m months =
     (if js_lt y ey \<or> (js_eq y ey \<and> js_le m em)
      then (if js_lt (Some 12) (js_add m 1)
            then months_loop ey em (js_add y 1) (Some 1) (months @ [month_key y m])
            else months_loop ey em y (js_add m 1) (months @ [month_key y m]))
      else Some months)"

declare months_loop.simps [code]

text \<open>
  What a caller of \<^verbatim>\<open>getMonthsBetween\<close> can meet instead of a list of month keys:
  the loop never returns, or the list returned is \<^verbatim>\<open>[null]\<close> (empty start date).
\<close>

datatype failure = Diverges | Null_month

definition getMonthsBetween :: "string \<Rightarrow> string \<Rightarrow> failure + string list" where
  "getMonthsBetween startDate endDate =
     (case months_loop (num_piece (split_dash endDate) 0) (num_piece (split_dash endDate) 1)
             (num_piece (split_dash startDate) 0) (num_piece (split_dash startDate) 1) [] of
        None \<Rightarrow> Inl Diverges
      | Some months \<Rightarrow>
          (if 0 < length months then Inr months
           else (case toYearMonth startDate of None \<Rightarrow> Inl Null_month | Some k \<Rightarrow> Inr [k])))"

text \<open>
  \<^verbatim>\<open>
  function addMonths(ym, n) {
    let [y, m] = ym.split('-').map(Number)
    m += n
    while (m > 12) { m -= 12; y++ }
    while (m < 1) { m += 12; y-- }
    return `${y}-${String(m).padStart(2, '0')}`
  }
  \<close>
  Both loops end: each compares a number with a constant and moves it towards the
  constant by 12; on \<^verbatim>\<open>NaN\<close> neither loop is entered.
\<close>

function carry_up :: "int option \<Rightarrow> int \<Rightarrow> int option \<times> int" where
  "carry_up y m = (if 12 < m then carry_up (js_add y 1) (m - 12) else (y, m))"
  by pat_completeness auto
termination
  by (relation "measure (\<lambda>(y, m). nat m)") auto

function borrow_down :: "int option \<Rightarrow> int \<Rightarrow> int option \<times> int" where
  "borrow_down y m = (if m < 1 then borrow_down (js_add y (- 1)) (m + 12) else (y, m))"
  by pat_completeness auto
termination
  by (relation "measure (\<lambda>(y, m). nat (1 - m))") auto

declare carry_up.simps [simp del] borrow_down.simps [simp del]

definition addMonths :: "string \<Rightarrow> int \<Rightarrow> string" where
  "addMonths ym n =
     (case num_piece (split_dash ym) 1 of
        None \<Rightarrow> month_key (num_piece (split_dash ym) 0) None
      | Some m0 \<Rightarrow>
          (case carry_up (num_piece (split_dash ym) 0) (m0 + n) of (y1, m1) \<Rightarrow>
             (case borrow_down y1 m1 of (y2, m2) \<Rightarrow> month_key y2 (Some m2))))"

subsection \<open>The monthly allocator (\<^verbatim>\<open>allMonthly\<close>)\<close>

text \<open>
  One entry of \<^verbatim>\<open>series[i].data\<close>. An absent or \<^verbatim>\<open>null\<close> field is \<open>None\<close>.
\<close>

record billing_record =
  period_start :: "string option"
  period_end :: "string option"
  cost_gross :: "rat option"
  is_estimate :: bool

record series =
  provider :: string
  data :: "billing_record list"

text \<open>
  A row object \<^verbatim>\<open>{ month: ym, <key>: <number>, ... }\<close>. The model keeps the month apart
  from the numeric fields, so it covers provider keys other than the literal
  \<^verbatim>\<open>month\<close> (in the source such a provider would overwrite the row's own month).
\<close>

record month_row =
  month :: string
  vals :: "string \<rightharpoonup> rat"

text \<open>\<^verbatim>\<open>v || 0\<close> on a numeric field that may be absent.\<close>

definition num_or_0 :: "rat option \<Rightarrow> rat" where
  "num_or_0 v = (case v of None \<Rightarrow> 0 | Some x \<Rightarrow> x)"

text \<open>Truthiness of a string that may be absent: \<^verbatim>\<open>null\<close>, \<^verbatim>\<open>undefined\<close> and \<^verbatim>\<open>''\<close> are falsy.\<close>

definition truthy :: "string option \<Rightarrow> bool" where
  "truthy s = (case s of None \<Rightarrow> False | Some t \<Rightarrow> t \<noteq> [])"

text \<open>\<^verbatim>\<open>Math.round(x * 100) / 100\<close>; \<^verbatim>\<open>Math.round\<close> rounds halves towards \<open>+\<infinity>\<close>.\<close>

definition round2 :: "rat \<Rightarrow> rat" where
  "round2 x = of_int \<lfloor>x * 100 + 1 / 2\<rfloor> / 100"

text \<open>
  The body of the innermost loop:
  \<^verbatim>\<open>
  if (!providerMonths[ym]) providerMonths[ym] = { month: ym }
  providerMonths[ym][provider] = (providerMonths[ym][provider] || 0) + perMonth
  \<close>
\<close>

definition add_month ::
  "string \<Rightarrow> rat \<Rightarrow> string \<Rightarrow> (string \<times> month_row) list \<Rightarrow> (string \<times> month_row) list" where
  "add_month prov perMonth ym providerMonths =
     (let row = (case map_of providerMonths ym of
                   None \<Rightarrow> \<lparr>month = ym, vals = Map.empty\<rparr>
                 | Some r \<Rightarrow> r)
      in AList.update ym
           (row\<lparr>vals := (vals row)(prov \<mapsto> num_or_0 (vals row prov) + perMonth)\<rparr>)
           providerMonths)"

text \<open>
  The two \<^verbatim>\<open>continue\<close> guards of the loop over \<^verbatim>\<open>s.data\<close>:
  \<^verbatim>\<open>
  if (d.is_estimate) continue
  const cost = d.cost_gross || 0
  if (!cost || !d.period_start) continue
  \<close>
\<close>

definition skipped :: "billing_record \<Rightarrow> bool" where
  "skipped d = (is_estimate d \<or> num_or_0 (cost_gross d) = 0 \<or> \<not> truthy (period_start d))"

text \<open>\<^verbatim>\<open>d.period_end || d.period_start\<close>, for a record that passed the guards.\<close>

definition end_or_start :: "billing_record \<Rightarrow> string \<Rightarrow> string" where
  "end_or_start d start = (case period_end d of None \<Rightarrow> start | Some e \<Rightarrow> if e = [] then start else e)"

text \<open>
  The body of the loop over \<^verbatim>\<open>s.data\<close>:
  \<^verbatim>\<open>
  const months = getMonthsBetween(d.period_start, d.period_end || d.period_start)
  const perMonth = cost / months.length
  for (const ym of months) { ... }
  \<close>
\<close>

definition allocate_record ::
  "string \<Rightarrow> billing_record \<Rightarrow> (string \<times> month_row) list \<Rightarrow> failure + (string \<times> month_row) list" where
  "allocate_record prov d providerMonths =
     (if skipped d then Inr providerMonths
      else (case period_start d of
              None \<Rightarrow> Inr providerMonths
            | Some start \<Rightarrow>
                (case getMonthsBetween start (end_or_start d start) of
                   Inl e \<Rightarrow> Inl e
                 | Inr months \<Rightarrow>
                     Inr (fold (add_month prov (num_or_0 (cost_gross d) / of_nat (length months)))
                            months providerMonths))))"

fun allocate_data ::
  "string \<Rightarrow> billing_record list \<Rightarrow> (string \<times> month_row) list \<Rightarrow> failure + (string \<times> month_row) list" where
  "allocate_data prov [] providerMonths = Inr providerMonths"
| "allocate_data prov (d # ds) providerMonths =
     (case allocate_record prov d providerMonths of
        Inl e \<Rightarrow> Inl e
      | Inr pm \<Rightarrow> allocate_data prov ds pm)"

fun allocate_series ::
  "series list \<Rightarrow> (string \<times> month_row) list \<Rightarrow> failure + (string \<times> month_row) list" where
  "allocate_series [] providerMonths = Inr providerMonths"
| "allocate_series (s # ss) providerMonths =
     (case allocate_data (provider s) (data s) providerMonths of
        Inl e \<Rightarrow> Inl e
      | Inr pm \<Rightarrow> allocate_series ss pm)"

text \<open>
  The projection of a row to the three known providers:
  \<^verbatim>\<open>
  const out = { month: row.month }
  for (const k of ['eon', 'pgnig', 'mpwik']) out[k] = Math.round((row[k] || 0) * 100) / 100
  \<close>
\<close>

definition round_row :: "month_row \<Rightarrow> month_row" where
  "round_row row =
     fold (\<lambda>k out. out\<lparr>vals := (vals out)(k \<mapsto> round2 (num_or_0 (vals row k)))\<rparr>)
       [''eon'', ''pgnig'', ''mpwik''] \<lparr>month = month row, vals = Map.empty\<rparr>"

text \<open>
  \<^verbatim>\<open>allMonthly\<close>: empty when there is no series, else the rows of \<^verbatim>\<open>providerMonths\<close>
  in insertion order, sorted by month (\<^verbatim>\<open>Array.prototype.sort\<close> is stable, as
  \<^const>\<open>sort_key\<close> is) and projected.
\<close>

definition allMonthly :: "series list \<Rightarrow> failure + month_row list" where
  "allMonthly chartData =
     (if chartData = [] then Inr []
      else (case allocate_series chartData [] of
              Inl e \<Rightarrow> Inl e
            | Inr providerMonths \<Rightarrow> Inr (map round_row (sort_key month (map snd providerMonths)))))"

subsection \<open>The quarter aggregator\<close>

text \<open>A row of the chart: \<^verbatim>\<open>{ period: key, <key>: <number>, ... }\<close>.\<close>

record chart_row =
  period :: string
  cells :: "string \<rightharpoonup> rat"

text \<open>
  The body of the loop of \<^verbatim>\<open>aggregateToQuarters\<close>:
  \<^verbatim>\<open>
  const qKey = toQuarter(row.month)
  if (!quarters[qKey]) quarters[qKey] = { period: qKey }
  for (const key of Object.keys(row)) {
    if (key === 'month' || key === 'period') continue
    quarters[qKey][key] = (quarters[qKey][key] || 0) + (row[key] || 0)
  }
  \<close>
  \<open>quarter_of\<close> is the quarter object after the second line. The inner loop visits
  every own key of the row once and assigns only to that key of the quarter, so its
  effect (\<open>add_row_fields\<close>) is written key by key.
\<close>

definition quarter_of :: "(string \<times> chart_row) list \<Rightarrow> string \<Rightarrow> chart_row" where
  "quarter_of quarters qKey =
     (case map_of quarters qKey of
        None \<Rightarrow> \<lparr>period = qKey, cells = Map.empty\<rparr>
      | Some q \<Rightarrow> q)"

definition add_row_fields :: "month_row \<Rightarrow> chart_row \<Rightarrow> chart_row" where
  "add_row_fields row q =
     q\<lparr>cells := (\<lambda>key.
          if key = ''month'' \<or> key = ''period'' then cells q key
          else (case vals row key of
                  None \<Rightarrow> cells q key
                | Some v \<Rightarrow> Some (num_or_0 (cells q key) + num_or_0 (Some v))))\<rparr>"

definition add_quarter_row ::
  "month_row \<Rightarrow> (string \<times> chart_row) list \<Rightarrow> (string \<times> chart_row) list" where
  "add_quarter_row row quarters =
     (let qKey = toQuarter (month row)
      in AList.update qKey (add_row_fields row (quarter_of quarters qKey)) quarters)"

definition aggregateToQuarters :: "month_row list \<Rightarrow> chart_row list" where
  "aggregateToQuarters monthlyData =
     sort_key period (map snd (fold add_quarter_row monthlyData []))"

subsection \<open>The visible window and paging\<close>

record window =
  windowStart :: "string option"
  windowEnd :: "string option"
  canGoBack :: bool
  canGoForward :: bool

text \<open>
  The memo that computes \<^verbatim>\<open>{ windowStart, windowEnd, canGoBack, canGoForward }\<close> from
  \<^verbatim>\<open>allMonthly\<close>, \<^verbatim>\<open>windowMonths\<close> and \<^verbatim>\<open>offset\<close> (the specification's \<^verbatim>\<open>computeWindow\<close>).
\<close>

definition computeWindow :: "month_row list \<Rightarrow> int \<Rightarrow> int \<Rightarrow> window" where
  "computeWindow timeline windowMonths offset =
     (if timeline = [] then
        \<lparr>windowStart = None, windowEnd = None, canGoBack = False, canGoForward = False\<rparr>
      else if windowMonths = 0 then
        \<lparr>windowStart = Some (month (hd timeline)), windowEnd = Some (month (last timeline)),
         canGoBack = False, canGoForward = False\<rparr>
      else
        (let end = addMonths (month (last timeline)) (- offset);
             start = addMonths end (- (windowMonths - 1))
         in \<lparr>windowStart = Some start, windowEnd = Some end,
             canGoBack = (month (hd timeline) < start), canGoForward = (0 < offset)\<rparr>))"

text \<open>
  \<^verbatim>\<open>
  const stepSize = Math.max(1, Math.floor(windowMonths / 2))
  const goBack = () => setOffset(o => o + stepSize)
  const goForward = () => setOffset(o => Math.max(0, o - stepSize))
  \<close>
\<close>

definition stepSize :: "int \<Rightarrow> int" where
  "stepSize windowMonths = max 1 (windowMonths div 2)"

definition goBack :: "int \<Rightarrow> int \<Rightarrow> int" where
  "goBack windowMonths offset = offset + stepSize windowMonths"

definition goForward :: "int \<Rightarrow> int \<Rightarrow> int" where
  "goForward windowMonths offset = max 0 (offset - stepSize windowMonths)"

subsection \<open>Filtering and the display projection (\<^verbatim>\<open>displayData\<close>)\<close>

record display_row =
  label :: string
  eon :: rat
  pgnig :: rat
  mpwik :: rat
  total :: rat

text \<open>
  \<^verbatim>\<open>
  let filtered = allMonthly
  if (windowMonths > 0 && windowStart && windowEnd) {
    filtered = allMonthly.filter(row => row.month >= windowStart && row.month <= windowEnd)
  }
  \<close>
\<close>

definition filtered :: "month_row list \<Rightarrow> int \<Rightarrow> string option \<Rightarrow> string option \<Rightarrow> month_row list" where
  "filtered timeline windowMonths ws we =
     (case ws of
        None \<Rightarrow> timeline
      | Some s \<Rightarrow>
          (case we of
             None \<Rightarrow> timeline
           | Some e \<Rightarrow>
               (if 0 < windowMonths \<and> s \<noteq> [] \<and> e \<noteq> []
                then filter (\<lambda>row. s \<le> month row \<and> month row \<le> e) timeline
                else timeline)))"

text \<open>
  \<^verbatim>\<open>
  if (aggregation === 'quarter') chartRows = aggregateToQuarters(filtered)
  else chartRows = filtered.map(row =>
    ({ period: row.month, eon: row.eon, pgnig: row.pgnig, mpwik: row.mpwik }))
  \<close>
\<close>

definition chartRows :: "month_row list \<Rightarrow> string \<Rightarrow> chart_row list" where
  "chartRows rows aggregation =
     (if aggregation = ''quarter'' then aggregateToQuarters rows
      else map (\<lambda>row. \<lparr>period = month row,
                        cells = vals row |` {''eon'', ''pgnig'', ''mpwik''}\<rparr>) rows)"

text \<open>
  \<^verbatim>\<open>
  const final = chartRows.map(r => ({
    period: r.period,
    eon: Math.round((r.eon || 0) * 100) / 100,
    pgnig: Math.round((r.pgnig || 0) * 100) / 100,
    mpwik: Math.round((r.mpwik || 0) * 100) / 100,
    total: Math.round(((r.eon || 0) + (r.pgnig || 0) + (r.mpwik || 0)) * 100) / 100,
  }))
  \<close>
\<close>

definition final_row :: "chart_row \<Rightarrow> display_row" where
  "final_row r =
     \<lparr>label = period r,
      eon = round2 (num_or_0 (cells r ''eon'')),
      pgnig = round2 (num_or_0 (cells r ''pgnig'')),
      mpwik = round2 (num_or_0 (cells r ''mpwik'')),
      total = round2 (num_or_0 (cells r ''eon'') + num_or_0 (cells r ''pgnig'')
                      + num_or_0 (cells r ''mpwik''))\<rparr>"

definition displayData ::
  "month_row list \<Rightarrow> int \<Rightarrow> string option \<Rightarrow> string option \<Rightarrow> string \<Rightarrow> display_row list" where
  "displayData timeline windowMonths ws we aggregation =
     (if timeline = [] then []
      else map final_row (chartRows (filtered timeline windowMonths ws we) aggregation))"

subsection \<open>Notions used to state the properties\<close>

text \<open>The input with every record that satisfies \<open>P\<close> removed from every series.\<close>

definition drop_records :: "(billing_record \<Rightarrow> bool) \<Rightarrow> series list \<Rightarrow> series list" where
  "drop_records P chartData = map (\<lambda>s. s\<lparr>data := filter (\<lambda>d. \<not> P d) (data s)\<rparr>) chartData"

text \<open>A record whose cost is at most 0 (or absent), or whose \<^verbatim>\<open>period_start\<close> is absent.\<close>

definition no_positive_cost_or_no_start :: "billing_record \<Rightarrow> bool" where
  "no_positive_cost_or_no_start d = (num_or_0 (cost_gross d) \<le> 0 \<or> \<not> truthy (period_start d))"

text \<open>A record whose cost is 0 or absent, or whose \<^verbatim>\<open>period_start\<close> is absent or empty.\<close>

definition no_cost_or_no_start :: "billing_record \<Rightarrow> bool" where
  "no_cost_or_no_start d = (num_or_0 (cost_gross d) = 0 \<or> \<not> truthy (period_start d))"


text \<open>
  Well-formed dates: \<^verbatim>\<open>YYYY-MM-DD\<close> or \<^verbatim>\<open>YYYY-MM\<close>, four digits of year, two digits of
  month between 01 and 12, two digits of day.
\<close>

definition wf_year :: "string \<Rightarrow> bool" where
  "wf_year y = (length y = 4 \<and> list_all is_digit y)"

definition wf_month :: "string \<Rightarrow> bool" where
  "wf_month m = (length m = 2 \<and> list_all is_digit m \<and> 1 \<le> dec_value m \<and> dec_value m \<le> 12)"

definition wf_day :: "string \<Rightarrow> bool" where
  "wf_day d = (length d = 2 \<and> list_all is_digit d)"

definition wf_date :: "string \<Rightarrow> bool" where
  "wf_date s =
     (case split_dash s of
        [y, m] \<Rightarrow> wf_year y \<and> wf_month m
      | [y, m, d] \<Rightarrow> wf_year y \<and> wf_month m \<and> wf_day d
      | _ \<Rightarrow> False)"

text \<open>
  Calendar months counted from month 1 of year 0: the index of a (year, month) pair, the
  index of the month a date lies in, and the key of the month with a given index.
\<close>

definition month_index :: "int \<Rightarrow> int \<Rightarrow> int" where
  "month_index y m = 12 * y + (m - 1)"

definition date_index :: "string \<Rightarrow> int" where
  "date_index s =
     month_index (int (dec_value (piece (split_dash s) 0))) (int (dec_value (piece (split_dash s) 1)))"

definition index_key :: "int \<Rightarrow> string" where
  "index_key i = month_key (Some (i div 12)) (Some (i mod 12 + 1))"

text \<open>
  What the quarter with key \<open>qKey\<close> holds for the field \<open>k\<close> in the dictionary
  \<^verbatim>\<open>quarters\<close> (0 when there is no such quarter or no such field).
\<close>

definition quarter_cell :: "(string \<times> chart_row) list \<Rightarrow> string \<Rightarrow> string \<Rightarrow> rat" where
  "quarter_cell quarters qKey k =
     (case map_of quarters qKey of None \<Rightarrow> 0 | Some q \<Rightarrow> num_or_0 (cells q k))"

text \<open>
  The contributions of an input, in the order in which the three nested loops of
  \<^verbatim>\<open>allMonthly\<close> make them: one triple (provider, month key, \<open>perMonth\<close>) per month of every
  record that passes the guards. The result is a failure where \<^verbatim>\<open>getMonthsBetween\<close>
  fails first.
\<close>

definition record_contributions ::
  "string \<Rightarrow> billing_record \<Rightarrow> failure + (string \<times> string \<times> rat) list" where
  "record_contributions prov d =
     (if skipped d then Inr []
      else (case period_start d of
              None \<Rightarrow> Inr []
            | Some start \<Rightarrow>
                (case getMonthsBetween start (end_or_start d start) of
                   Inl e \<Rightarrow> Inl e
                 | Inr months \<Rightarrow>
                     Inr (map (\<lambda>ym. (prov, ym, num_or_0 (cost_gross d) / of_nat (length months)))
                            months))))"

fun data_contributions ::
  "string \<Rightarrow> billing_record list \<Rightarrow> failure + (string \<times> string \<times> rat) list" where
  "data_contributions prov [] = Inr []"
| "data_contributions prov (d # ds) =
     (case record_contributions prov d of
        Inl e \<Rightarrow> Inl e
      | Inr cs \<Rightarrow>
          (case data_contributions prov ds of
             Inl e \<Rightarrow> Inl e
           | Inr cs' \<Rightarrow> Inr (cs @ cs')))"

fun contributions :: "series list \<Rightarrow> failure + (string \<times> string \<times> rat) list" where
  "contributions [] = Inr []"
| "contributions (s # ss) =
     (case data_contributions (provider s) (data s) of
        Inl e \<Rightarrow> Inl e
      | Inr cs \<Rightarrow>
          (case contributions ss of
             Inl e \<Rightarrow> Inl e
           | Inr cs' \<Rightarrow> Inr (cs @ cs')))"

text \<open>One contribution added to \<^verbatim>\<open>providerMonths\<close>.\<close>

definition add_contribution ::
  "string \<times> string \<times> rat \<Rightarrow> (string \<times> month_row) list \<Rightarrow> (string \<times> month_row) list" where
  "add_contribution c providerMonths = add_month (fst c) (snd (snd c)) (fst (snd c)) providerMonths"

text \<open>The row of a month in \<^verbatim>\<open>providerMonths\<close>, a fresh row when the month is not there yet.\<close>

definition row_of :: "(string \<times> month_row) list \<Rightarrow> string \<Rightarrow> month_row" where
  "row_of providerMonths ym =
     (case map_of providerMonths ym of
        None \<Rightarrow> \<lparr>month = ym, vals = Map.empty\<rparr>
      | Some r \<Rightarrow> r)"

text \<open>
  The months that received a contribution, what provider \<open>k\<close> received in month \<open>ym\<close>
  before rounding, the months in ascending order without repetition, and the row that
  the timeline shows for a month.
\<close>

definition touched_months :: "(string \<times> string \<times> rat) list \<Rightarrow> string set" where
  "touched_months cs = set (map (\<lambda>c. fst (snd c)) cs)"

definition month_sum :: "(string \<times> string \<times> rat) list \<Rightarrow> string \<Rightarrow> string \<Rightarrow> rat" where
  "month_sum cs ym k =
     sum_list (map (\<lambda>c. snd (snd c)) (filter (\<lambda>c. fst c = k \<and> fst (snd c) = ym) cs))"

definition sorted_keys :: "(string \<times> string \<times> rat) list \<Rightarrow> string list" where
  "sorted_keys cs = sort (remdups (map (\<lambda>c. fst (snd c)) cs))"

definition timeline_row :: "(string \<times> string \<times> rat) list \<Rightarrow> string \<Rightarrow> month_row" where
  "timeline_row cs ym =
     \<lparr>month = ym,
      vals = [''eon'' \<mapsto> round2 (month_sum cs ym ''eon''),
              ''pgnig'' \<mapsto> round2 (month_sum cs ym ''pgnig''),
              ''mpwik'' \<mapsto> round2 (month_sum cs ym ''mpwik'')]\<rparr>"

text \<open>The input restricted to the series of the three known providers.\<close>

definition known_provider :: "string \<Rightarrow> bool" where
  "known_provider k = (k = ''eon'' \<or> k = ''pgnig'' \<or> k = ''mpwik'')"

definition known_only :: "series list \<Rightarrow> series list" where
  "known_only chartData = filter (\<lambda>s. known_provider (provider s)) chartData"



text \<open>Inputs used as examples.\<close>

definition example_chartData :: "series list" where
  "example_chartData =
     [\<lparr>provider = ''eon'', data = [
          \<lparr>period_start = Some ''2024-01-10'', period_end = Some ''2024-03-09'',
            cost_gross = Some 100, is_estimate = False\<rparr>]\<rparr>,
      \<lparr>provider = ''pgnig'', data = [
          \<lparr>period_start = Some ''2024-02-01'', period_end = Some ''2024-04-30'',
            cost_gross = Some 200, is_estimate = False\<rparr>]\<rparr>]"

definition example_unknown_provider :: "series list" where
  "example_unknown_provider =
     [\<lparr>provider = ''tauron'', data = [
          \<lparr>period_start = Some ''2023-12-01'', period_end = Some ''2024-01-31'',
            cost_gross = Some 100, is_estimate = False\<rparr>]\<rparr>]"




section \<open>Properties\<close>

subsection \<open>Records that the allocator skips\<close>

lemma allocate_record_skipped: "skipped d \<Longrightarrow> allocate_record prov d pm = Inr pm"
  by (simp add: allocate_record_def)

lemma allocate_data_drop:
  assumes "\<And>d. P d \<Longrightarrow> skipped d"
  shows "allocate_data prov (filter (\<lambda>d. \<not> P d) ds) pm = allocate_data prov ds pm"
proof (induction ds arbitrary: pm)
  case Nil
  show ?case by simp
next
  case (Cons d ds)
  show ?case
  proof (cases "P d")
    case True
    then have "allocate_record prov d pm = Inr pm"
      using assms allocate_record_skipped by blast
    with True Cons show ?thesis by simp
  next
    case False
    with Cons show ?thesis by (simp split: sum.splits)
  qed
qed

lemma allocate_series_drop:
  assumes "\<And>d. P d \<Longrightarrow> skipped d"
  shows "allocate_series (drop_records P ss) pm = allocate_series ss pm"
proof (induction ss arbitrary: pm)
  case Nil
  show ?case by (simp add: drop_records_def)
next
  case (Cons s ss)
  have "allocate_data (provider s) (filter (\<lambda>d. \<not> P d) (data s)) pm
        = allocate_data (provider s) (data s) pm"
    using assms by (rule allocate_data_drop)
  with Cons show ?case by (simp add: drop_records_def split: sum.splits)
qed

lemma allMonthly_drop:
  assumes "\<And>d. P d \<Longrightarrow> skipped d"
  shows "allMonthly (drop_records P chartData) = allMonthly chartData"
proof -
  have "(drop_records P chartData = []) = (chartData = [])"
    by (simp add: drop_records_def)
  then show ?thesis
    using allocate_series_drop [OF assms, of P chartData "[]"]
    by (simp add: allMonthly_def)
qed

lemmas eval_strings =
  num_piece_def Number_def is_digit_def dec_value_def digit_val_def digit_char_def
  js_lt_def js_le_def js_eq_def js_add_def month_key_def num_str_def show_int_def
  digits_of.simps padStart2_def piece_def toYearMonth_def

lemmas eval_allocator =
  allMonthly_def allocate_record_def skipped_def truthy_def num_or_0_def end_or_start_def
  getMonthsBetween_def months_loop.simps add_month_def round_row_def round2_def

text \<open>
  Claim C7 (estimate exclusion). Removing every record with \<^verbatim>\<open>is_estimate = true\<close> from
  the input does not change the timeline; such a record leaves \<^verbatim>\<open>providerMonths\<close> as it
  is, whatever its cost and period are; and an input made of one estimate record with
  \<^verbatim>\<open>cost_gross\<close> 100 gives the empty timeline.
\<close>

theorem estimate_exclusion:
  "allMonthly (drop_records is_estimate chartData) = allMonthly chartData
   \<and> (is_estimate d \<longrightarrow> allocate_record prov d pm = Inr pm)
   \<and> allMonthly [\<lparr>provider = prov, data = [\<lparr>period_start = Some ''2024-01'', period_end = None,
         cost_gross = Some 100, is_estimate = True\<rparr>]\<rparr>] = Inr []"
proof (intro conjI)
  show "allMonthly (drop_records is_estimate chartData) = allMonthly chartData"
    by (rule allMonthly_drop) (simp add: skipped_def)
  show "is_estimate d \<longrightarrow> allocate_record prov d pm = Inr pm"
    by (simp add: allocate_record_skipped skipped_def)
  show "allMonthly [\<lparr>provider = prov, data = [\<lparr>period_start = Some ''2024-01'', period_end = None,
         cost_gross = Some 100, is_estimate = True\<rparr>]\<rparr>] = Inr []"
    by (simp add: allMonthly_def allocate_record_def skipped_def)
qed

theorem estimate_exclusion_witness:
  "allMonthly [\<lparr>provider = ''eon'', data = [
       \<lparr>period_start = Some ''2024-03-01'', period_end = Some ''2024-03-31'',
         cost_gross = Some 300, is_estimate = True\<rparr>,
       \<lparr>period_start = Some ''2024-01-15'', period_end = Some ''2024-02-14'',
         cost_gross = Some 200, is_estimate = False\<rparr>]\<rparr>]
   = allMonthly [\<lparr>provider = ''eon'', data = [
       \<lparr>period_start = Some ''2024-01-15'', period_end = Some ''2024-02-14'',
         cost_gross = Some 200, is_estimate = False\<rparr>]\<rparr>]
   \<and> is_estimate \<lparr>period_start = Some ''2024-03-01'', period_end = Some ''2024-03-31'',
         cost_gross = Some 300, is_estimate = True\<rparr>
   \<and> allocate_record ''eon'' \<lparr>period_start = Some ''2024-03-01'', period_end = Some ''2024-03-31'',
         cost_gross = Some 300, is_estimate = True\<rparr> [] = Inr []"
  using estimate_exclusion [of "[\<lparr>provider = ''eon'', data = [
       \<lparr>period_start = Some ''2024-03-01'', period_end = Some ''2024-03-31'',
         cost_gross = Some 300, is_estimate = True\<rparr>,
       \<lparr>period_start = Some ''2024-01-15'', period_end = Some ''2024-02-14'',
         cost_gross = Some 200, is_estimate = False\<rparr>]\<rparr>]"
     "\<lparr>period_start = Some ''2024-03-01'', period_end = Some ''2024-03-31'',
         cost_gross = Some 300, is_estimate = True\<rparr>" "''eon''" "[]"]
  by (simp add: drop_records_def)

text \<open>
  Claim C1, as stated, fails: the guard \<^verbatim>\<open>!cost\<close> tests whether the cost is falsy, so a
  record with a strictly negative cost is allocated like any other. Removing the record
  with cost \<open>-50\<close> from this input changes the timeline (from one row for 2024-01 to none).
\<close>

theorem negative_cost_counterexample:
  "allMonthly (drop_records no_positive_cost_or_no_start
      [\<lparr>provider = ''eon'', data = [\<lparr>period_start = Some ''2024-01-01'',
          period_end = Some ''2024-01-31'', cost_gross = Some (- 50), is_estimate = False\<rparr>]\<rparr>])
   \<noteq> allMonthly
      [\<lparr>provider = ''eon'', data = [\<lparr>period_start = Some ''2024-01-01'',
          period_end = Some ''2024-01-31'', cost_gross = Some (- 50), is_estimate = False\<rparr>]\<rparr>]"
  by (simp add: drop_records_def no_positive_cost_or_no_start_def eval_allocator eval_strings)

text \<open>
  Claim C1, amended. A record whose \<^verbatim>\<open>cost_gross\<close> is zero or absent, or whose
  \<^verbatim>\<open>period_start\<close> is absent or empty, contributes nothing: the timeline of any input
  is the timeline of the same input with all such records removed.
\<close>

theorem falsy_cost_or_no_start_excluded:
  "allMonthly (drop_records no_cost_or_no_start chartData) = allMonthly chartData"
  by (rule allMonthly_drop) (auto simp: skipped_def no_cost_or_no_start_def)

theorem falsy_cost_or_no_start_excluded_witness:
  "allMonthly [\<lparr>provider = ''eon'', data = [
       \<lparr>period_start = Some ''2024-01-15'', period_end = Some ''2024-02-14'',
         cost_gross = Some 200, is_estimate = False\<rparr>]\<rparr>]
   = allMonthly [\<lparr>provider = ''eon'', data = [
       \<lparr>period_start = Some ''2024-03-01'', period_end = Some ''2024-03-31'',
         cost_gross = Some 0, is_estimate = False\<rparr>,
       \<lparr>period_start = Some ''2024-01-15'', period_end = Some ''2024-02-14'',
         cost_gross = Some 200, is_estimate = False\<rparr>,
       \<lparr>period_start = None, period_end = Some ''2024-03-31'',
         cost_gross = Some 70, is_estimate = False\<rparr>,
       \<lparr>period_start = Some ''2024-05-01'', period_end = None,
         cost_gross = None, is_estimate = False\<rparr>]\<rparr>]"
  using falsy_cost_or_no_start_excluded [of "[\<lparr>provider = ''eon'', data = [
       \<lparr>period_start = Some ''2024-03-01'', period_end = Some ''2024-03-31'',
         cost_gross = Some 0, is_estimate = False\<rparr>,
       \<lparr>period_start = Some ''2024-01-15'', period_end = Some ''2024-02-14'',
         cost_gross = Some 200, is_estimate = False\<rparr>,
       \<lparr>period_start = None, period_end = Some ''2024-03-31'',
         cost_gross = Some 70, is_estimate = False\<rparr>,
       \<lparr>period_start = Some ''2024-05-01'', period_end = None,
         cost_gross = None, is_estimate = False\<rparr>]\<rparr>]"]
  by (simp add: drop_records_def no_cost_or_no_start_def num_or_0_def truthy_def)

subsection \<open>Even allocation\<close>

lemma sum_list_update:
  fixes g :: "'v \<Rightarrow> rat"
  shows "sum_list (map (\<lambda>kr. g (snd kr)) (AList.update k v al)) =
     sum_list (map (\<lambda>kr. g (snd kr)) al) + g v
       - (case map_of al k of None \<Rightarrow> 0 | Some r \<Rightarrow> g r)"
  by (induction al) auto







subsection \<open>Paging\<close>

text \<open>
  Claim C6 (pan round-trip). From any offset \<open>\<ge> 0\<close>, stepping back (adding the stride
  \<open>max 1 (windowMonths div 2)\<close>) and then stepping forward (subtracting it, clamped at 0)
  gives the offset back; and at offset 0 \<^verbatim>\<open>canGoForward\<close> is false.
\<close>

theorem pan_round_trip:
  "0 \<le> offset \<Longrightarrow>
     goForward w (goBack w offset) = offset
     \<and> goBack w offset = offset + max 1 (w div 2)
     \<and> \<not> canGoForward (computeWindow timeline w 0)"
  by (simp add: goForward_def goBack_def stepSize_def computeWindow_def Let_def)

theorem pan_round_trip_witness:
  "(0::int) \<le> 18 \<and> goForward 36 (goBack 36 18) = 18 \<and> goBack 36 18 = 36
   \<and> \<not> canGoForward (computeWindow [\<lparr>month = ''2022-01'', vals = Map.empty\<rparr>,
                                       \<lparr>month = ''2024-12'', vals = Map.empty\<rparr>] 36 0)"
  using pan_round_trip [of 18 36 "[\<lparr>month = ''2022-01'', vals = Map.empty\<rparr>,
                                       \<lparr>month = ''2024-12'', vals = Map.empty\<rparr>]"]
  by (simp add: goBack_def goForward_def stepSize_def)

subsection \<open>The months of a period\<close>

lemma index_key_month_index:
  "1 \<le> m \<Longrightarrow> m \<le> 12 \<Longrightarrow> index_key (month_index y m) = month_key (Some y) (Some m)"
proof -
  assume a: "1 \<le> m" "m \<le> 12"
  have "(12 * y + (m - 1)) div 12 = y" using a by simp
  moreover have "(12 * y + (m - 1)) mod 12 + 1 = m" using a by simp
  ultimately show ?thesis by (simp add: index_key_def month_index_def)
qed

lemma months_loop_step:
  "months_loop (Some ey) (Some em) (Some y) (Some m) acc =
     (if y < ey \<or> (y = ey \<and> m \<le> em)
      then (if 12 < m + 1
            then months_loop (Some ey) (Some em) (Some (y + 1)) (Some 1) (acc @ [month_key (Some y) (Some m)])
            else months_loop (Some ey) (Some em) (Some y) (Some (m + 1)) (acc @ [month_key (Some y) (Some m)]))
      else Some acc)"
  by (subst months_loop.simps) (simp add: js_lt_def js_eq_def js_le_def js_add_def)

lemma months_loop_range:
  assumes "1 \<le> em" "em \<le> 12"
  shows "1 \<le> m \<Longrightarrow> m \<le> 12 \<Longrightarrow> n = nat (month_index ey em + 1 - month_index y m) \<Longrightarrow>
     months_loop (Some ey) (Some em) (Some y) (Some m) acc
     = Some (acc @ map index_key [month_index y m .. month_index ey em])"
proof (induction n arbitrary: y m acc)
  case 0
  then have gt: "month_index ey em < month_index y m" by simp
  then have "\<not> (y < ey \<or> (y = ey \<and> m \<le> em))"
    using assms 0 by (auto simp: month_index_def)
  then show ?case using gt
    by (subst months_loop_step) auto
next
  case (Suc n)
  then have le: "month_index y m \<le> month_index ey em" by simp
  then have cond: "y < ey \<or> (y = ey \<and> m \<le> em)"
    using assms Suc.prems by (auto simp: month_index_def)
  have key: "month_key (Some y) (Some m) = index_key (month_index y m)"
    using Suc.prems by (simp add: index_key_month_index)
  have range: "[month_index y m .. month_index ey em]
      = month_index y m # [month_index y m + 1 .. month_index ey em]"
    using le by (simp add: upto_rec1)
  have fin: "(acc @ [month_key (Some y) (Some m)]) @ map index_key [month_index y m + 1 .. month_index ey em]
      = acc @ map index_key [month_index y m .. month_index ey em]"
    by (simp add: key range)
  show ?case
  proof (cases "m = 12")
    case True
    have nxt: "month_index (y + 1) 1 = month_index y m + 1"
      using True by (simp add: month_index_def)
    have "months_loop (Some ey) (Some em) (Some y) (Some m) acc
        = months_loop (Some ey) (Some em) (Some (y + 1)) (Some 1) (acc @ [month_key (Some y) (Some m)])"
      using cond True by (subst months_loop_step) simp
    also have "\<dots> = Some ((acc @ [month_key (Some y) (Some m)]) @ map index_key [month_index (y + 1) 1 .. month_index ey em])"
      using Suc.prems nxt by (intro Suc.IH) simp_all
    finally show ?thesis
      by (simp only: nxt fin)
  next
    case False
    have nxt: "month_index y (m + 1) = month_index y m + 1"
      by (simp add: month_index_def)
    have "months_loop (Some ey) (Some em) (Some y) (Some m) acc
        = months_loop (Some ey) (Some em) (Some y) (Some (m + 1)) (acc @ [month_key (Some y) (Some m)])"
      using cond False Suc.prems by (subst months_loop_step) simp
    also have "\<dots> = Some ((acc @ [month_key (Some y) (Some m)]) @ map index_key [month_index y (m + 1) .. month_index ey em])"
      using Suc.prems nxt False by (intro Suc.IH) simp_all
    finally show ?thesis
      by (simp only: nxt fin)
  qed
qed


lemma split_dash_nonempty: "split_dash s \<noteq> []"
  by (induction s) (auto split: list.splits)

lemma split_dash_no_dash: "CHR ''-'' \<notin> set s \<Longrightarrow> split_dash s = [s]"
  by (induction s) auto

lemma split_dash_append: "CHR ''-'' \<notin> set a \<Longrightarrow> split_dash (a @ CHR ''-'' # b) = a # split_dash b"
  by (induction a) auto

lemma split_dash_rebuild:
  "split_dash s = p # q # ps \<Longrightarrow> \<exists>t. s = p @ CHR ''-'' # t \<and> split_dash t = q # ps"
proof (induction s arbitrary: p)
  case Nil
  then show ?case by simp
next
  case (Cons c cs)
  show ?case
  proof (cases "c = CHR ''-''")
    case True
    with Cons.prems show ?thesis by auto
  next
    case False
    with Cons.prems obtain p' where p': "split_dash cs = p' # q # ps" "p = c # p'"
      by (auto split: list.splits)
    from Cons.IH [OF p'(1)] obtain t where "cs = p' @ CHR ''-'' # t" "split_dash t = q # ps"
      by blast
    with p'(2) show ?thesis by auto
  qed
qed

lemma split_dash_single: "split_dash s = [p] \<Longrightarrow> s = p"
proof (induction s arbitrary: p)
  case Nil
  then show ?case by simp
next
  case (Cons c cs)
  then show ?case
    using split_dash_nonempty [of cs] by (auto split: if_splits list.splits)
qed

lemma wf_date_take7:
  assumes "wf_date s"
  shows "piece (split_dash s) 0 @ ''-'' @ piece (split_dash s) 1 = take 7 s"
proof -
  from assms obtain y m rest where sp: "split_dash s = y # m # rest"
    and len: "length y = 4" "length m = 2" and rest: "rest = [] \<or> (\<exists>d. rest = [d])"
    by (auto simp: wf_date_def wf_year_def wf_month_def split: list.splits)
  from split_dash_rebuild [OF sp] obtain t where t: "s = y @ CHR ''-'' # t" "split_dash t = m # rest"
    by blast
  have "\<exists>u. t = m @ u"
  proof (cases rest)
    case Nil
    with t(2) have "t = m" by (simp add: split_dash_single)
    then show ?thesis by simp
  next
    case (Cons d ds)
    with t(2) split_dash_rebuild [of t m d ds] show ?thesis by auto
  qed
  then obtain u where "t = m @ u" by blast
  with t(1) len sp show ?thesis by (simp add: piece_def)
qed

lemma wf_date_pieces:
  assumes "wf_date s"
  shows "num_piece (split_dash s) 0 = Some (int (dec_value (piece (split_dash s) 0)))"
    and "num_piece (split_dash s) 1 = Some (int (dec_value (piece (split_dash s) 1)))"
    and "1 \<le> dec_value (piece (split_dash s) 1)"
    and "dec_value (piece (split_dash s) 1) \<le> 12"
    and "s \<noteq> []"
  using assms
  by (auto simp: wf_date_def wf_year_def wf_month_def num_piece_def piece_def Number_def
           split: list.splits)

lemma months_of_well_formed_dates:
  assumes "wf_date startDate" and "wf_date endDate"
  shows "\<exists>months. getMonthsBetween startDate endDate = Inr months
           \<and> 0 < length months
           \<and> months = (if date_index endDate < date_index startDate then [take 7 startDate]
                        else map index_key [date_index startDate .. date_index endDate])"
proof -
  let ?sy = "int (dec_value (piece (split_dash startDate) 0))"
  let ?sm = "int (dec_value (piece (split_dash startDate) 1))"
  let ?ey = "int (dec_value (piece (split_dash endDate) 0))"
  let ?em = "int (dec_value (piece (split_dash endDate) 1))"
  note s = wf_date_pieces [OF assms(1)]
  note e = wf_date_pieces [OF assms(2)]
  have loop: "months_loop (Some ?ey) (Some ?em) (Some ?sy) (Some ?sm) []
      = Some ([] @ map index_key [month_index ?sy ?sm .. month_index ?ey ?em])"
    using s(3,4) e(3,4) by (intro months_loop_range [OF _ _ _ _ refl]) simp_all
  have fallback: "toYearMonth startDate = Some (take 7 startDate)"
    using s(5) wf_date_take7 [OF assms(1)] by (simp add: toYearMonth_def)
  show ?thesis
  proof (cases "date_index endDate < date_index startDate")
    case True
    then have "[month_index ?sy ?sm .. month_index ?ey ?em] = []"
      by (simp add: date_index_def)
    with True show ?thesis
      unfolding getMonthsBetween_def s(1,2) e(1,2) loop
      by (simp add: fallback)
  next
    case False
    then have "[month_index ?sy ?sm .. month_index ?ey ?em] \<noteq> []"
      by (simp add: date_index_def)
    with False show ?thesis
      unfolding getMonthsBetween_def s(1,2) e(1,2) loop
      by (simp add: date_index_def)
  qed
qed

text \<open>
  Claim C3. For well-formed start and end dates \<^verbatim>\<open>getMonthsBetween\<close> returns (the loop
  ends). The list returned holds the keys of the consecutive calendar months from the
  month of the start date to the month of the end date, both included (month 12 of a
  year is followed by month 1 of the next); when the end month precedes the start month
  it holds the start month alone, as the first seven characters \<^verbatim>\<open>YYYY-MM\<close> of the start
  date. In both cases it has at least one element.
\<close>

theorem getMonthsBetween_well_formed:
  assumes "wf_date startDate" and "wf_date endDate"
  shows "\<exists>months. getMonthsBetween startDate endDate = Inr months
           \<and> 0 < length months
           \<and> months = (if date_index endDate < date_index startDate then [take 7 startDate]
                        else map index_key [date_index startDate .. date_index endDate])"
  using assms by (rule months_of_well_formed_dates)

theorem getMonthsBetween_well_formed_witness:
  "wf_date ''2023-11-15'' \<and> wf_date ''2024-02-14'' \<and> wf_date ''2024-03''
   \<and> getMonthsBetween ''2023-11-15'' ''2024-02-14''
       = Inr [''2023-11'', ''2023-12'', ''2024-01'', ''2024-02'']
   \<and> getMonthsBetween ''2024-03'' ''2024-02-14'' = Inr [''2024-03'']"
proof -
  have h1: "wf_date ''2023-11-15''" and h2: "wf_date ''2024-02-14''" and h3: "wf_date ''2024-03''"
    by (simp_all add: wf_date_def wf_year_def wf_month_def wf_day_def is_digit_def
          dec_value_def digit_val_def)
  have i1: "date_index ''2023-11-15'' = 24286" and i2: "date_index ''2024-02-14'' = 24289"
    and i3: "date_index ''2024-03'' = 24290"
    by (simp_all add: date_index_def month_index_def piece_def dec_value_def digit_val_def)
  show ?thesis
    using h1 h2 h3 getMonthsBetween_well_formed [OF h1 h2] getMonthsBetween_well_formed [OF h3 h2]
    by (simp add: i1 i2 i3 upto_rec1 index_key_def eval_strings)
qed

subsection \<open>Decimal digits and month keys\<close>

lemma of_char_digit_char: "d < 10 \<Longrightarrow> (of_char (digit_char d) :: nat) = 48 + d"
proof -
  assume "d < 10"
  then have "d \<in> {0, 1, 2, 3, 4, 5, 6, 7, 8, 9}" by auto
  then show ?thesis by (auto simp: digit_char_def)
qed

lemma is_digit_digit_char: "d < 10 \<Longrightarrow> is_digit (digit_char d)"
  by (simp add: is_digit_def of_char_digit_char)

lemma digit_val_digit_char: "d < 10 \<Longrightarrow> digit_val (digit_char d) = d"
  by (simp add: digit_val_def of_char_digit_char)

lemma is_digit_not_dash: "is_digit c \<Longrightarrow> c \<noteq> CHR ''-''"
  by (auto simp: is_digit_def)

lemma dec_value_Nil: "dec_value [] = 0"
  by (simp add: dec_value_def)

lemma dec_value_snoc: "dec_value (s @ [c]) = 10 * dec_value s + digit_val c"
  by (simp add: dec_value_def)

lemma digits_of_all_digits: "list_all is_digit (digits_of n)"
proof (induction n rule: digits_of.induct)
  case (1 n)
  show ?case
  proof (cases "n < 10")
    case True
    then show ?thesis by (subst digits_of.simps) (simp add: is_digit_digit_char)
  next
    case False
    with 1 show ?thesis by (subst digits_of.simps) (simp add: is_digit_digit_char)
  qed
qed

lemma dec_value_digits_of: "dec_value (digits_of n) = n"
proof (induction n rule: digits_of.induct)
  case (1 n)
  show ?case
  proof (cases "n < 10")
    case True
    then show ?thesis
      using dec_value_snoc [of "[]" "digit_char n"]
      by (subst digits_of.simps) (simp add: digit_val_digit_char dec_value_Nil)
  next
    case False
    with 1 show ?thesis
      by (subst digits_of.simps) (simp add: dec_value_snoc digit_val_digit_char)
  qed
qed

lemma digits_of_no_dash: "CHR ''-'' \<notin> set (digits_of n)"
  using digits_of_all_digits [of n] is_digit_not_dash by (auto simp: list_all_iff)

lemma length_digits_of_small: "n < 10 \<Longrightarrow> length (digits_of n) = 1"
  by (subst digits_of.simps) simp

lemma length_digits_of_2: "10 \<le> n \<Longrightarrow> n < 100 \<Longrightarrow> length (digits_of n) = 2"
  by (subst digits_of.simps) (simp add: length_digits_of_small)

lemma length_digits_of_3: "100 \<le> n \<Longrightarrow> n < 1000 \<Longrightarrow> length (digits_of n) = 3"
  by (subst digits_of.simps) (simp add: length_digits_of_2)

lemma length_digits_of_4: "1000 \<le> n \<Longrightarrow> n < 10000 \<Longrightarrow> length (digits_of n) = 4"
  by (subst digits_of.simps) (simp add: length_digits_of_3)

lemma padStart2_month:
  assumes "1 \<le> m" "m \<le> 12"
  shows "length (padStart2 (digits_of m)) = 2"
    and "list_all is_digit (padStart2 (digits_of m))"
    and "dec_value (padStart2 (digits_of m)) = m"
proof -
  have zero: "is_digit CHR ''0''" "digit_val CHR ''0'' = 0"
    by (simp_all add: is_digit_def digit_val_def)
  show "length (padStart2 (digits_of m)) = 2"
    using assms by (cases "m < 10") (simp_all add: padStart2_def length_digits_of_small length_digits_of_2)
  show "list_all is_digit (padStart2 (digits_of m))"
    using digits_of_all_digits [of m] zero by (auto simp: padStart2_def list_all_iff)
  show "dec_value (padStart2 (digits_of m)) = m"
  proof (cases "m < 10")
    case True
    then have "padStart2 (digits_of m) = CHR ''0'' # digits_of m"
      by (simp add: padStart2_def length_digits_of_small)
    moreover have "dec_value (CHR ''0'' # s) = dec_value s" for s
      using zero by (simp add: dec_value_def)
    ultimately show ?thesis by (simp add: dec_value_digits_of)
  next
    case False
    then have "padStart2 (digits_of m) = digits_of m"
      using assms by (simp add: padStart2_def length_digits_of_2)
    then show ?thesis by (simp add: dec_value_digits_of)
  qed
qed

lemma split_month_key:
  assumes "0 \<le> y" "1 \<le> m" "m \<le> 12"
  shows "split_dash (month_key (Some y) (Some m)) = [digits_of (nat y), padStart2 (digits_of (nat m))]"
proof -
  have "list_all is_digit (padStart2 (digits_of (nat m)))"
    using assms by (intro padStart2_month(2)) simp_all
  then have "CHR ''-'' \<notin> set (padStart2 (digits_of (nat m)))"
    using is_digit_not_dash by (auto simp: list_all_iff)
  then have "split_dash (padStart2 (digits_of (nat m))) = [padStart2 (digits_of (nat m))]"
    by (rule split_dash_no_dash)
  then show ?thesis
    using assms digits_of_no_dash [of "nat y"]
    by (simp add: month_key_def num_str_def show_int_def split_dash_append)
qed

lemma num_pieces_month_key:
  assumes "0 \<le> y" "1 \<le> m" "m \<le> 12"
  shows "num_piece (split_dash (month_key (Some y) (Some m))) 0 = Some y"
    and "num_piece (split_dash (month_key (Some y) (Some m))) 1 = Some m"
  using assms padStart2_month [of "nat m"] digits_of_all_digits [of "nat y"]
  by (simp_all add: split_month_key num_piece_def Number_def dec_value_digits_of)

subsection \<open>Adding months to a key\<close>

lemma carry_up_spec:
  "\<exists>y' m'. carry_up (Some y) m = (Some y', m') \<and> m' \<le> 12 \<and> 12 * y' + m' = 12 * y + m
           \<and> (1 \<le> m \<longrightarrow> 1 \<le> m')"
proof (induction "nat m" arbitrary: y m rule: less_induct)
  case less
  show ?case
  proof (cases "12 < m")
    case True
    then have "nat (m - 12) < nat m" by simp
    from less [OF this, of "y + 1"] obtain y' m' where
      "carry_up (Some (y + 1)) (m - 12) = (Some y', m')" "m' \<le> 12"
      "12 * y' + m' = 12 * (y + 1) + (m - 12)" "1 \<le> m - 12 \<longrightarrow> 1 \<le> m'"
      by blast
    with True show ?thesis
      by (subst carry_up.simps) (simp add: js_add_def)
  next
    case False
    then show ?thesis by (subst carry_up.simps) simp
  qed
qed

lemma borrow_down_spec:
  "\<exists>y' m'. borrow_down (Some y) m = (Some y', m') \<and> 1 \<le> m' \<and> 12 * y' + m' = 12 * y + m
           \<and> (m \<le> 12 \<longrightarrow> m' \<le> 12)"
proof (induction "nat (1 - m)" arbitrary: y m rule: less_induct)
  case less
  show ?case
  proof (cases "m < 1")
    case True
    then have "nat (1 - (m + 12)) < nat (1 - m)" by simp
    from less [OF this, of "y + - 1"] obtain y' m' where
      "borrow_down (Some (y + - 1)) (m + 12) = (Some y', m')" "1 \<le> m'"
      "12 * y' + m' = 12 * (y + - 1) + (m + 12)" "m + 12 \<le> 12 \<longrightarrow> m' \<le> 12"
      by blast
    with True show ?thesis
      by (subst borrow_down.simps) (simp add: js_add_def)
  next
    case False
    then show ?thesis by (subst borrow_down.simps) simp
  qed
qed

lemma index_key_unique:
  assumes "1 \<le> m'" "m' \<le> 12" "12 * y' + m' = i + 1"
  shows "month_key (Some y') (Some m') = index_key i"
proof -
  have i: "i = 12 * y' + (m' - 1)" using assms by simp
  have "i div 12 = y'" using assms(1,2) unfolding i by simp
  moreover have "i mod 12 + 1 = m'" using assms(1,2) unfolding i by simp
  ultimately show ?thesis by (simp add: index_key_def)
qed

lemma addMonths_month_key:
  assumes "0 \<le> y" "1 \<le> m" "m \<le> 12"
  shows "addMonths (month_key (Some y) (Some m)) n = index_key (month_index y m + n)"
proof -
  obtain y1 m1 where c: "carry_up (Some y) (m + n) = (Some y1, m1)" "m1 \<le> 12"
      "12 * y1 + m1 = 12 * y + (m + n)"
    using carry_up_spec [of y "m + n"] by blast
  obtain y2 m2 where b: "borrow_down (Some y1) m1 = (Some y2, m2)" "1 \<le> m2"
      "12 * y2 + m2 = 12 * y1 + m1" "m2 \<le> 12"
    using borrow_down_spec [of y1 m1] c(2) by blast
  have "month_key (Some y2) (Some m2) = index_key (month_index y m + n)"
    using b c by (intro index_key_unique) (simp_all add: month_index_def)
  then show ?thesis
    unfolding addMonths_def num_pieces_month_key [OF assms]
    by (simp add: c(1) b(1))
qed

lemma index_key_as_month_key:
  "index_key i = month_key (Some (i div 12)) (Some (i mod 12 + 1))"
  by (simp add: index_key_def)

lemma addMonths_index_key:
  assumes "0 \<le> i"
  shows "addMonths (index_key i) n = index_key (i + n)"
proof -
  have "0 \<le> i div 12" using assms by simp
  moreover have "1 \<le> i mod 12 + 1" "i mod 12 + 1 \<le> 12" by simp_all
  ultimately have "addMonths (month_key (Some (i div 12)) (Some (i mod 12 + 1))) n
      = index_key (month_index (i div 12) (i mod 12 + 1) + n)"
    by (rule addMonths_month_key)
  moreover have "month_index (i div 12) (i mod 12 + 1) = i"
    by (simp add: month_index_def)
  ultimately show ?thesis by (simp add: index_key_def)
qed

subsection \<open>The order of month keys\<close>

lemma foldl_dec_acc:
  "foldl (\<lambda>a c. 10 * a + digit_val c) a cs
   = a * 10 ^ length cs + foldl (\<lambda>a c. 10 * a + digit_val c) 0 cs"
proof (induction cs arbitrary: a)
  case Nil
  show ?case by simp
next
  case (Cons c cs)
  show ?case
    using Cons [of "10 * a + digit_val c"] Cons [of "digit_val c"]
    by (simp add: algebra_simps)
qed

lemma dec_value_Cons: "dec_value (c # cs) = digit_val c * 10 ^ length cs + dec_value cs"
  using foldl_dec_acc [of "digit_val c" cs] by (simp add: dec_value_def)

lemma dec_value_bound: "list_all is_digit cs \<Longrightarrow> dec_value cs < 10 ^ length cs"
proof (induction cs)
  case Nil
  show ?case by (simp add: dec_value_def)
next
  case (Cons c cs)
  then have "digit_val c \<le> 9" "dec_value cs < 10 ^ length cs"
    by (auto simp: is_digit_def digit_val_def)
  then have "digit_val c * 10 ^ length cs + dec_value cs < 9 * 10 ^ length cs + 10 ^ length cs"
    by (intro add_le_less_mono mult_right_mono) simp_all
  then show ?case by (simp add: dec_value_Cons)
qed

lemma digit_order:
  assumes "is_digit c" "is_digit d"
  shows "c < d \<longleftrightarrow> digit_val c < digit_val d" and "c = d \<longleftrightarrow> digit_val c = digit_val d"
proof -
  show "c < d \<longleftrightarrow> digit_val c < digit_val d"
    using assms by (auto simp: less_char_def is_digit_def digit_val_def)
  have "c = d \<longleftrightarrow> (of_char c :: nat) = of_char d" by simp
  also have "\<dots> \<longleftrightarrow> digit_val c = digit_val d"
    using assms unfolding is_digit_def digit_val_def by linarith
  finally show "c = d \<longleftrightarrow> digit_val c = digit_val d" .
qed

lemma positional_less:
  fixes a b x y P :: nat
  assumes "a < b" "x < P"
  shows "a * P + x < b * P + y"
proof -
  have "a * P + x < a * P + P" using assms by simp
  also have "\<dots> = (a + 1) * P" by simp
  also have "\<dots> \<le> b * P" using assms(1) by (intro mult_right_mono) simp_all
  finally show ?thesis by simp
qed

lemma positional_order:
  fixes a b x y P :: nat
  assumes "x < P" "y < P"
  shows "a * P + x < b * P + y \<longleftrightarrow> a < b \<or> (a = b \<and> x < y)"
    and "a * P + x = b * P + y \<longleftrightarrow> a = b \<and> x = y"
proof -
  consider "a < b" | "a = b" | "b < a" by (rule linorder_cases)
  then show "a * P + x < b * P + y \<longleftrightarrow> a < b \<or> (a = b \<and> x < y)"
  proof cases
    case 1
    with positional_less [OF 1 assms(1), of y] show ?thesis by simp
  next
    case 2
    then show ?thesis by simp
  next
    case 3
    with positional_less [OF 3 assms(2), of x] show ?thesis by simp
  qed
  consider "a < b" | "a = b" | "b < a" by (rule linorder_cases)
  then show "a * P + x = b * P + y \<longleftrightarrow> a = b \<and> x = y"
  proof cases
    case 1
    with positional_less [OF 1 assms(1), of y] show ?thesis by simp
  next
    case 2
    then show ?thesis by simp
  next
    case 3
    with positional_less [OF 3 assms(2), of x] show ?thesis by simp
  qed
qed

lemma digits_lex:
  assumes "length a = length b" "list_all is_digit a" "list_all is_digit b"
  shows "(a < b \<longleftrightarrow> dec_value a < dec_value b) \<and> (a = b \<longleftrightarrow> dec_value a = dec_value b)"
  using assms
proof (induction a b rule: list_induct2)
  case Nil
  show ?case by simp
next
  case (Cons c cs d ds)
  then have ih: "cs < ds \<longleftrightarrow> dec_value cs < dec_value ds" "cs = ds \<longleftrightarrow> dec_value cs = dec_value ds"
    and dig: "is_digit c" "is_digit d"
    and bnd: "dec_value cs < 10 ^ length ds" "dec_value ds < 10 ^ length ds"
    using dec_value_bound [of cs] dec_value_bound [of ds] by simp_all
  note ord = digit_order [OF dig]
  note pos = positional_order [OF bnd, of "digit_val c" "digit_val d"]
  have len: "length cs = length ds" by fact
  show ?case
    by (simp add: dec_value_Cons len pos ord ih)
qed

lemma less_append_same_length:
  fixes a b :: string
  assumes "length a = length b"
  shows "a @ x < b @ y \<longleftrightarrow> a < b \<or> (a = b \<and> x < y)"
  using assms by (induction a b rule: list_induct2) auto

lemma month_key_order:
  assumes "1000 \<le> y1" "y1 \<le> 9999" "1000 \<le> y2" "y2 \<le> 9999"
    and "1 \<le> m1" "m1 \<le> 12" "1 \<le> m2" "m2 \<le> 12"
  shows "month_key (Some y1) (Some m1) < month_key (Some y2) (Some m2)
         \<longleftrightarrow> month_index y1 m1 < month_index y2 m2"
proof -
  let ?a = "digits_of (nat y1)" and ?b = "digits_of (nat y2)"
  let ?x = "padStart2 (digits_of (nat m1))" and ?y = "padStart2 (digits_of (nat m2))"
  have la: "length ?a = 4" "length ?b = 4"
    using assms by (simp_all add: length_digits_of_4)
  have ys: "(?a < ?b \<longleftrightarrow> nat y1 < nat y2) \<and> (?a = ?b \<longleftrightarrow> nat y1 = nat y2)"
    using digits_lex [of ?a ?b] la digits_of_all_digits by (simp add: dec_value_digits_of)
  have m1: "length ?x = 2" "list_all is_digit ?x" "dec_value ?x = nat m1"
    using assms by (simp_all add: padStart2_month)
  have m2: "length ?y = 2" "list_all is_digit ?y" "dec_value ?y = nat m2"
    using assms by (simp_all add: padStart2_month)
  have ms: "?x < ?y \<longleftrightarrow> nat m1 < nat m2"
    using digits_lex [of ?x ?y] m1 m2 by simp
  have keys: "month_key (Some y1) (Some m1) = ?a @ (CHR ''-'' # ?x)"
       "month_key (Some y2) (Some m2) = ?b @ (CHR ''-'' # ?y)"
    using assms by (simp_all add: month_key_def num_str_def show_int_def)
  have "month_key (Some y1) (Some m1) < month_key (Some y2) (Some m2)
      \<longleftrightarrow> y1 < y2 \<or> (y1 = y2 \<and> m1 < m2)"
    unfolding keys using la ys ms assms
    by (auto simp: less_append_same_length)
  also have "\<dots> \<longleftrightarrow> month_index y1 m1 < month_index y2 m2"
    using assms by (auto simp: month_index_def)
  finally show ?thesis .
qed

lemma index_key_order:
  assumes "12000 \<le> i" "i < 120000" "12000 \<le> j" "j < 120000"
  shows "index_key i < index_key j \<longleftrightarrow> i < j"
proof -
  have "month_key (Some (i div 12)) (Some (i mod 12 + 1)) < month_key (Some (j div 12)) (Some (j mod 12 + 1))
        \<longleftrightarrow> month_index (i div 12) (i mod 12 + 1) < month_index (j div 12) (j mod 12 + 1)"
    using assms by (intro month_key_order) simp_all
  then show ?thesis by (simp add: index_key_def month_index_def)
qed

subsection \<open>The visible window\<close>

text \<open>
  Claim C4, amended. For a non-empty timeline whose first and last month keys are
  well-formed with years from 1000 to 9999, a width \<open>> 0\<close> and an offset \<open>\<ge> 0\<close> such that the
  window start does not fall before January of the year 1000: the window end is the last
  month minus \<open>offsetMonths\<close> calendar months, the start is the end minus
  \<open>widthMonths - 1\<close> months, \<^verbatim>\<open>canGoBack\<close> holds exactly when the start is strictly after
  the first month of the timeline, and \<^verbatim>\<open>canGoForward\<close> exactly when the offset is positive.
  Months are counted by \<open>month_index\<close>, so that subtraction borrows across years.
\<close>

theorem window_within_four_digit_years:
  assumes "timeline \<noteq> []"
    and "month (hd timeline) = month_key (Some fy) (Some fm)"
    and "1000 \<le> fy" "fy \<le> 9999" "1 \<le> fm" "fm \<le> 12"
    and "month (last timeline) = month_key (Some ly) (Some lm)"
    and "1000 \<le> ly" "ly \<le> 9999" "1 \<le> lm" "lm \<le> 12"
    and "0 < widthMonths" "0 \<le> offsetMonths"
    and "12000 \<le> month_index ly lm - offsetMonths - (widthMonths - 1)"
  shows "computeWindow timeline widthMonths offsetMonths =
     \<lparr>windowStart = Some (index_key (month_index ly lm - offsetMonths - (widthMonths - 1))),
      windowEnd = Some (index_key (month_index ly lm - offsetMonths)),
      canGoBack = (month_index fy fm < month_index ly lm - offsetMonths - (widthMonths - 1)),
      canGoForward = (0 < offsetMonths)\<rparr>"
proof -
  let ?L = "month_index ly lm" and ?F = "month_index fy fm"
  let ?e = "?L - offsetMonths" and ?s = "?L - offsetMonths - (widthMonths - 1)"
  have L: "?L < 120000" and F: "12000 \<le> ?F" "?F < 120000"
    using assms by (simp_all add: month_index_def)
  have e: "addMonths (month (last timeline)) (- offsetMonths) = index_key ?e"
    using assms(7-11) addMonths_month_key [of ly lm "- offsetMonths"] by simp
  have e0: "0 \<le> ?e" using assms(12-14) by simp
  have es: "?e + - (widthMonths - 1) = ?s" by simp
  have s: "addMonths (index_key ?e) (- (widthMonths - 1)) = index_key ?s"
    using addMonths_index_key [OF e0, of "- (widthMonths - 1)"] unfolding es .
  have "?s < 120000" using L assms(12,13) by simp
  then have "index_key ?F < index_key ?s \<longleftrightarrow> ?F < ?s"
    using F assms(14) by (intro index_key_order) simp_all
  moreover have "index_key ?F = month (hd timeline)"
    using assms(2-6) by (simp add: index_key_month_index)
  ultimately have cgb: "month (hd timeline) < index_key ?s \<longleftrightarrow> ?F < ?s" by simp
  show ?thesis
    unfolding computeWindow_def Let_def e s
    using assms(1,12) cgb by simp
qed

text \<open>
  The instance of the specification: width 12 and offset 0 on a timeline from 2022-01 to
  2024-12 give the window 2024-01 to 2024-12, with paging back enabled and paging
  forward disabled.
\<close>

theorem window_within_four_digit_years_witness:
  "computeWindow [\<lparr>month = ''2022-01'', vals = Map.empty\<rparr>,
                  \<lparr>month = ''2023-06'', vals = Map.empty\<rparr>,
                  \<lparr>month = ''2024-12'', vals = Map.empty\<rparr>] 12 0
   = \<lparr>windowStart = Some ''2024-01'', windowEnd = Some ''2024-12'',
      canGoBack = True, canGoForward = False\<rparr>"
proof -
  let ?tl = "[\<lparr>month = ''2022-01'', vals = Map.empty\<rparr>,
              \<lparr>month = ''2023-06'', vals = Map.empty\<rparr>,
              \<lparr>month = ''2024-12'', vals = Map.empty\<rparr>]"
  have k1: "month (hd ?tl) = month_key (Some 2022) (Some 1)"
    and k2: "month (last ?tl) = month_key (Some 2024) (Some 12)"
    by (simp_all add: eval_strings)
  have k3: "index_key (month_index 2024 12 - 0 - (12 - 1)) = ''2024-01''"
    and k4: "index_key (month_index 2024 12 - 0) = ''2024-12''"
    by (simp_all add: index_key_def month_index_def eval_strings)
  have "computeWindow ?tl 12 0 =
     \<lparr>windowStart = Some (index_key (month_index 2024 12 - 0 - (12 - 1))),
      windowEnd = Some (index_key (month_index 2024 12 - 0)),
      canGoBack = (month_index 2022 1 < month_index 2024 12 - 0 - (12 - 1)),
      canGoForward = (0 < (0::int))\<rparr>"
    by (rule window_within_four_digit_years [OF _ k1 _ _ _ _ k2])
       (simp_all add: month_index_def)
  then show ?thesis
    by (simp only: k3 k4) (simp add: month_index_def)
qed

text \<open>
  Claim C4, as stated for every offset, fails far in the past, where keys lose the
  four-digit year. On the timeline 2022-01 to 2024-12 with width 12: at offset 12300 the
  start is \<^verbatim>\<open>999-01\<close>, which is before the first month, yet \<^verbatim>\<open>canGoBack\<close> is true (the
  strings are compared, and \<^verbatim>\<open>9\<close> sorts after \<^verbatim>\<open>2\<close>); at offset 24372 the end is
  \<^verbatim>\<open>-7-12\<close>, whose minus sign is split off as a separator when the start is computed,
  so the start is \<^verbatim>\<open>-1-08\<close> and not the end minus 11 months (\<^verbatim>\<open>-7-01\<close>).
\<close>

theorem window_far_back_counterexample:
  "canGoBack (computeWindow [\<lparr>month = ''2022-01'', vals = Map.empty\<rparr>,
                              \<lparr>month = ''2024-12'', vals = Map.empty\<rparr>] 12 12300)
   \<and> windowStart (computeWindow [\<lparr>month = ''2022-01'', vals = Map.empty\<rparr>,
                              \<lparr>month = ''2024-12'', vals = Map.empty\<rparr>] 12 12300) = Some ''999-01''
   \<and> \<not> month_index 2022 1 < month_index 999 1
   \<and> windowEnd (computeWindow [\<lparr>month = ''2022-01'', vals = Map.empty\<rparr>,
                              \<lparr>month = ''2024-12'', vals = Map.empty\<rparr>] 12 24372) = Some ''-7-12''
   \<and> windowStart (computeWindow [\<lparr>month = ''2022-01'', vals = Map.empty\<rparr>,
                              \<lparr>month = ''2024-12'', vals = Map.empty\<rparr>] 12 24372) = Some ''-1-08''
   \<and> index_key (month_index (- 7) 12 - (12 - 1)) = ''-7-01''"
  by (simp add: computeWindow_def Let_def addMonths_def carry_up.simps borrow_down.simps
        index_key_def month_index_def eval_strings)

subsection \<open>Quarters\<close>




lemma cells_add_row_fields:
  assumes "k \<noteq> ''month''" "k \<noteq> ''period''"
  shows "num_or_0 (cells (add_row_fields row q) k) = num_or_0 (cells q k) + num_or_0 (vals row k)"
  using assms by (simp add: add_row_fields_def num_or_0_def split: option.splits)

lemma period_add_row_fields: "period (add_row_fields row q) = period q"
  by (simp add: add_row_fields_def)

lemma quarter_cell_quarter_of: "quarter_cell al qKey k = num_or_0 (cells (quarter_of al qKey) k)"
  by (simp add: quarter_cell_def quarter_of_def num_or_0_def split: option.splits)

lemma quarter_of_add:
  "quarter_of (add_quarter_row row al) qKey =
     (if toQuarter (month row) = qKey then add_row_fields row (quarter_of al qKey)
      else quarter_of al qKey)"
  by (auto simp: quarter_of_def add_quarter_row_def Let_def update_conv')

lemma quarter_cell_add:
  assumes "k \<noteq> ''month''" "k \<noteq> ''period''"
  shows "quarter_cell (add_quarter_row row al) qKey k =
     quarter_cell al qKey k + (if toQuarter (month row) = qKey then num_or_0 (vals row k) else 0)"
  by (simp add: quarter_cell_quarter_of quarter_of_add cells_add_row_fields [OF assms])

lemma quarter_cell_fold:
  assumes "k \<noteq> ''month''" "k \<noteq> ''period''"
  shows "quarter_cell (fold add_quarter_row rows al) qKey k =
     quarter_cell al qKey k
     + sum_list (map (\<lambda>r. num_or_0 (vals r k)) (filter (\<lambda>r. toQuarter (month r) = qKey) rows))"
  by (induction rows arbitrary: al) (simp_all add: quarter_cell_add [OF assms])

lemma keys_add_quarter_row:
  "fst ` set (add_quarter_row row al) = insert (toQuarter (month row)) (fst ` set al)"
  by (simp add: add_quarter_row_def Let_def dom_update)

lemma keys_fold_quarters:
  "fst ` set (fold add_quarter_row rows al) = fst ` set al \<union> (\<lambda>r. toQuarter (month r)) ` set rows"
  by (induction rows arbitrary: al) (auto simp: keys_add_quarter_row)

lemma distinct_fold_quarters:
  "distinct (map fst al) \<Longrightarrow> distinct (map fst (fold add_quarter_row rows al))"
  by (induction rows arbitrary: al) (simp_all add: add_quarter_row_def Let_def distinct_update)

lemma set_update_subset: "set (AList.update k v al) \<subseteq> insert (k, v) (set al)"
  by (induction al) auto

lemma period_quarter_of:
  assumes "\<forall>kq \<in> set al. period (snd kq) = fst kq"
  shows "period (quarter_of al qKey) = qKey"
proof (cases "map_of al qKey")
  case None
  then show ?thesis by (simp add: quarter_of_def)
next
  case (Some q)
  then have "(qKey, q) \<in> set al" by (rule map_of_SomeD)
  with assms have "period q = qKey" by force
  with Some show ?thesis by (simp add: quarter_of_def)
qed

lemma period_add_quarter_row:
  assumes "\<forall>kq \<in> set al. period (snd kq) = fst kq"
  shows "\<forall>kq \<in> set (add_quarter_row row al). period (snd kq) = fst kq"
proof
  fix kq assume "kq \<in> set (add_quarter_row row al)"
  then have "kq \<in> set al
      \<or> kq = (toQuarter (month row), add_row_fields row (quarter_of al (toQuarter (month row))))"
    using set_update_subset [of "toQuarter (month row)" _ al]
    by (auto simp: add_quarter_row_def Let_def)
  then show "period (snd kq) = fst kq"
    using assms period_quarter_of [OF assms] by (auto simp: period_add_row_fields)
qed

lemma period_fold_quarters:
  "\<forall>kq \<in> set al. period (snd kq) = fst kq \<Longrightarrow>
   \<forall>kq \<in> set (fold add_quarter_row rows al). period (snd kq) = fst kq"
proof (induction rows arbitrary: al)
  case Nil
  then show ?case by simp
next
  case (Cons r rows)
  from period_add_quarter_row [OF Cons.prems]
  have "\<forall>kq \<in> set (add_quarter_row r al). period (snd kq) = fst kq" .
  from Cons.IH [OF this] show ?case by simp
qed

lemma sum_list_insort_key:
  fixes g :: "'a \<Rightarrow> rat"
  shows "sum_list (map g (insort_key f x xs)) = g x + sum_list (map g xs)"
  by (induction xs) simp_all

lemma sum_list_sort_key:
  fixes g :: "'a \<Rightarrow> rat"
  shows "sum_list (map g (sort_key f xs)) = sum_list (map g xs)"
  by (induction xs) (simp_all add: sum_list_insort_key)

lemma cells_total_add:
  assumes "k \<noteq> ''month''" "k \<noteq> ''period''"
  shows "sum_list (map (\<lambda>kq. num_or_0 (cells (snd kq) k)) (add_quarter_row row al))
     = sum_list (map (\<lambda>kq. num_or_0 (cells (snd kq) k)) al) + num_or_0 (vals row k)"
proof -
  let ?qk = "toQuarter (month row)"
  have "sum_list (map (\<lambda>kq. num_or_0 (cells (snd kq) k)) (AList.update ?qk v al)) =
        sum_list (map (\<lambda>kq. num_or_0 (cells (snd kq) k)) al) + num_or_0 (cells v k)
        - (case map_of al ?qk of None \<Rightarrow> 0 | Some r \<Rightarrow> num_or_0 (cells r k))" for v
    by (rule sum_list_update)
  moreover have "(case map_of al ?qk of None \<Rightarrow> 0 | Some r \<Rightarrow> num_or_0 (cells r k))
      = num_or_0 (cells (quarter_of al ?qk) k)"
    using quarter_cell_quarter_of [of al ?qk k] by (simp add: quarter_cell_def)
  ultimately show ?thesis
    by (simp add: add_quarter_row_def Let_def cells_add_row_fields [OF assms])
qed

lemma map_insort_key: "map f (insort_key f x xs) = insort (f x) (map f xs)"
  by (induction xs) simp_all

lemma map_sort_key: "map f (sort_key f xs) = sort (map f xs)"
  by (induction xs) (simp_all add: map_insort_key)

lemma cells_total_fold:
  assumes "k \<noteq> ''month''" "k \<noteq> ''period''"
  shows "sum_list (map (\<lambda>kq. num_or_0 (cells (snd kq) k)) (fold add_quarter_row rows al))
     = sum_list (map (\<lambda>kq. num_or_0 (cells (snd kq) k)) al)
       + sum_list (map (\<lambda>r. num_or_0 (vals r k)) rows)"
  by (induction rows arbitrary: al) (simp_all add: cells_total_add [OF assms])

lemma map_period_quarters:
  "map period (map snd (fold add_quarter_row rows [])) = map fst (fold add_quarter_row rows [])"
proof -
  have "\<forall>kq \<in> set (fold add_quarter_row rows []). period (snd kq) = fst kq"
    by (rule period_fold_quarters) simp
  then show ?thesis by simp
qed

lemma quarters_main:
  assumes "k \<noteq> ''month''" "k \<noteq> ''period''"
  shows "sum_list (map (\<lambda>q. num_or_0 (cells q k)) (aggregateToQuarters rows))
           = sum_list (map (\<lambda>r. num_or_0 (vals r k)) rows)"
    and "\<forall>q \<in> set (aggregateToQuarters rows).
           num_or_0 (cells q k)
           = sum_list (map (\<lambda>r. num_or_0 (vals r k))
                        (filter (\<lambda>r. toQuarter (month r) = period q) rows))"
    and "distinct (map period (aggregateToQuarters rows))"
    and "sorted (map period (aggregateToQuarters rows))"
    and "set (map period (aggregateToQuarters rows)) = (\<lambda>r. toQuarter (month r)) ` set rows"
proof -
  let ?Q = "fold add_quarter_row rows []"
  have per: "\<forall>kq \<in> set ?Q. period (snd kq) = fst kq"
    by (rule period_fold_quarters) simp
  have dist: "distinct (map fst ?Q)"
    by (rule distinct_fold_quarters) simp
  show "sum_list (map (\<lambda>q. num_or_0 (cells q k)) (aggregateToQuarters rows))
           = sum_list (map (\<lambda>r. num_or_0 (vals r k)) rows)"
    using cells_total_fold [OF assms, of rows "[]"]
    by (simp add: aggregateToQuarters_def sum_list_sort_key comp_def)
  show "\<forall>q \<in> set (aggregateToQuarters rows).
           num_or_0 (cells q k)
           = sum_list (map (\<lambda>r. num_or_0 (vals r k))
                        (filter (\<lambda>r. toQuarter (month r) = period q) rows))"
  proof
    fix q assume "q \<in> set (aggregateToQuarters rows)"
    then obtain qk where in_Q: "(qk, q) \<in> set ?Q"
      by (auto simp: aggregateToQuarters_def)
    with per have qk: "period q = qk" by force
    from in_Q dist have "map_of ?Q qk = Some q" by simp
    then have "quarter_cell ?Q (period q) k = num_or_0 (cells q k)"
      by (simp add: quarter_cell_def qk)
    then show "num_or_0 (cells q k)
           = sum_list (map (\<lambda>r. num_or_0 (vals r k))
                        (filter (\<lambda>r. toQuarter (month r) = period q) rows))"
      using quarter_cell_fold [OF assms, of rows "[]" "period q"]
      by (simp add: quarter_cell_def)
  qed
  have mp: "map period (aggregateToQuarters rows) = sort (map fst ?Q)"
    unfolding aggregateToQuarters_def
    by (simp only: map_sort_key map_period_quarters)
  show "distinct (map period (aggregateToQuarters rows))"
    using dist by (simp add: mp)
  show "sorted (map period (aggregateToQuarters rows))"
    by (simp add: mp)
  show "set (map period (aggregateToQuarters rows)) = (\<lambda>r. toQuarter (month r)) ` set rows"
    using keys_fold_quarters [of rows "[]"] by (simp add: mp)
qed



subsection \<open>The display projection\<close>

lemma round2_cent: "round2 x * 100 \<in> \<int>"
  by (simp add: round2_def)

lemma round2_of_cent:
  assumes "x * 100 \<in> \<int>"
  shows "round2 x = x"
proof -
  from assms obtain n :: int where n: "x * 100 = of_int n"
    by (auto elim: Ints_cases)
  have "\<lfloor>(of_int n :: rat) + 1 / 2\<rfloor> = n"
    by (simp add: floor_unique)
  then have "round2 x = of_int n / 100"
    by (simp add: round2_def n)
  also have "\<dots> = x" using n by simp
  finally show ?thesis .
qed

lemma cent_add: "x * 100 \<in> \<int> \<Longrightarrow> y * 100 \<in> \<int> \<Longrightarrow> (x + y) * 100 \<in> (\<int> :: rat set)"
  by (simp add: algebra_simps)

lemma cent_sum_list: "(\<And>x. x \<in> set xs \<Longrightarrow> f x * 100 \<in> (\<int> :: rat set)) \<Longrightarrow> sum_list (map f xs) * 100 \<in> \<int>"
proof (induction xs)
  case Nil
  show ?case by simp
next
  case (Cons x xs)
  then have "f x * 100 \<in> \<int>" "sum_list (map f xs) * 100 \<in> \<int>" by simp_all
  then have "(f x + sum_list (map f xs)) * 100 \<in> \<int>" by (rule cent_add)
  then show ?case by simp
qed

lemma vals_round_row:
  "vals (round_row row) k =
     (if k = ''mpwik'' \<or> k = ''pgnig'' \<or> k = ''eon'' then Some (round2 (num_or_0 (vals row k))) else None)"
  by (simp add: round_row_def)

lemma month_round_row: "month (round_row row) = month row"
  by (simp add: round_row_def)

lemma round_row_cent: "num_or_0 (vals (round_row row) k) * 100 \<in> \<int>"
  by (simp add: vals_round_row num_or_0_def round2_cent)

lemma allMonthly_cent:
  assumes "allMonthly chartData = Inr timeline" "row \<in> set timeline"
  shows "num_or_0 (vals row k) * 100 \<in> \<int>"
proof -
  from assms obtain r where "row = round_row r"
    by (auto simp: allMonthly_def split: if_splits sum.splits)
  then show ?thesis by (simp add: round_row_cent)
qed

lemma set_filtered: "set (filtered timeline w ws we) \<subseteq> set timeline"
  by (auto simp: filtered_def split: option.splits)

lemma chartRows_cent:
  assumes rows: "\<And>row k. row \<in> set rows \<Longrightarrow> num_or_0 (vals row k) * 100 \<in> \<int>"
    and r: "r \<in> set (chartRows rows aggregation)"
    and k: "k = ''eon'' \<or> k = ''pgnig'' \<or> k = ''mpwik''"
  shows "num_or_0 (cells r k) * 100 \<in> \<int>"
proof (cases "aggregation = ''quarter''")
  case True
  with r have q: "r \<in> set (aggregateToQuarters rows)" by (simp add: chartRows_def)
  from k have nk: "k \<noteq> ''month''" "k \<noteq> ''period''" by auto
  have "num_or_0 (cells r k)
      = sum_list (map (\<lambda>row. num_or_0 (vals row k))
                   (filter (\<lambda>row. toQuarter (month row) = period r) rows))"
    using quarters_main(2) [OF nk, of rows] q by blast
  moreover have "sum_list (map (\<lambda>row. num_or_0 (vals row k))
                   (filter (\<lambda>row. toQuarter (month row) = period r) rows)) * 100 \<in> \<int>"
    by (rule cent_sum_list) (simp add: rows)
  ultimately show ?thesis by simp
next
  case False
  with r obtain row where "row \<in> set rows" "cells r = vals row |` {''eon'', ''pgnig'', ''mpwik''}"
    by (auto simp: chartRows_def)
  with k rows [of row k] show ?thesis by auto
qed

text \<open>
  Claim C10. Every value of the monthly timeline is a whole number of hundredths, and
  so is every sum of such values. Hence, in exact arithmetic, the final rounding changes
  none of the four numbers of a display row, for the monthly and for the quarterly
  projection and for every window: each provider field is the value of the chart row,
  and the total is the sum of the three provider fields of the same row.
\<close>

theorem display_total_is_sum_of_parts:
  assumes "allMonthly chartData = Inr timeline"
  shows "(\<forall>r \<in> set (chartRows (filtered timeline windowMonths ws we) aggregation).
            final_row r =
              \<lparr>label = period r,
               eon = num_or_0 (cells r ''eon''),
               pgnig = num_or_0 (cells r ''pgnig''),
               mpwik = num_or_0 (cells r ''mpwik''),
               total = num_or_0 (cells r ''eon'') + num_or_0 (cells r ''pgnig'')
                       + num_or_0 (cells r ''mpwik'')\<rparr>)
     \<and> (\<forall>d \<in> set (displayData timeline windowMonths ws we aggregation).
            total d = eon d + pgnig d + mpwik d)"
proof -
  let ?rows = "filtered timeline windowMonths ws we"
  have rows: "num_or_0 (vals row k) * 100 \<in> \<int>" if "row \<in> set ?rows" for row k
    using that set_filtered [of timeline windowMonths ws we] allMonthly_cent [OF assms] by blast
  have fin: "final_row r =
              \<lparr>label = period r,
               eon = num_or_0 (cells r ''eon''),
               pgnig = num_or_0 (cells r ''pgnig''),
               mpwik = num_or_0 (cells r ''mpwik''),
               total = num_or_0 (cells r ''eon'') + num_or_0 (cells r ''pgnig'')
                       + num_or_0 (cells r ''mpwik'')\<rparr>"
    if r: "r \<in> set (chartRows ?rows aggregation)" for r
  proof -
    have e: "num_or_0 (cells r ''eon'') * 100 \<in> \<int>"
      and p: "num_or_0 (cells r ''pgnig'') * 100 \<in> \<int>"
      and m: "num_or_0 (cells r ''mpwik'') * 100 \<in> \<int>"
      using chartRows_cent [OF rows r] by simp_all
    have t: "(num_or_0 (cells r ''eon'') + num_or_0 (cells r ''pgnig'')
              + num_or_0 (cells r ''mpwik'')) * 100 \<in> \<int>"
      by (intro cent_add e p m)
    show ?thesis
      by (simp add: final_row_def round2_of_cent [OF e] round2_of_cent [OF p]
            round2_of_cent [OF m] round2_of_cent [OF t])
  qed
  have "total d = eon d + pgnig d + mpwik d"
    if "d \<in> set (displayData timeline windowMonths ws we aggregation)" for d
  proof -
    from that obtain r where "r \<in> set (chartRows ?rows aggregation)" "d = final_row r"
      by (auto simp: displayData_def split: if_splits)
    with fin [of r] show ?thesis by simp
  qed
  with fin show ?thesis by blast
qed

theorem display_total_is_sum_of_parts_witness:
  "allMonthly example_chartData = Inr (projr (allMonthly example_chartData))
   \<and> map (\<lambda>d. (label d, eon d, pgnig d, mpwik d, total d))
        (displayData (projr (allMonthly example_chartData)) 12
           (Some ''2024-01'') (Some ''2024-12'') ''quarter'')
      = [(''2024-Q1'', 9999 / 100, 13334 / 100, 0, 23333 / 100),
         (''2024-Q2'', 0, 6667 / 100, 0, 6667 / 100)]
   \<and> list_all (\<lambda>d. total d = eon d + pgnig d + mpwik d)
        (displayData (projr (allMonthly example_chartData)) 12
           (Some ''2024-01'') (Some ''2024-12'') ''quarter'')"
proof -
  have "\<not> isl (allMonthly example_chartData)"
    by code_simp
  then have h: "allMonthly example_chartData = Inr (projr (allMonthly example_chartData))"
    by simp
  have ev: "map (\<lambda>d. (label d, eon d, pgnig d, mpwik d, total d))
        (displayData (projr (allMonthly example_chartData)) 12
           (Some ''2024-01'') (Some ''2024-12'') ''quarter'')
      = [(''2024-Q1'', 9999 / 100, 13334 / 100, 0, 23333 / 100),
         (''2024-Q2'', 0, 6667 / 100, 0, 6667 / 100)]"
    by code_simp
  from display_total_is_sum_of_parts [OF h, of 12 "Some ''2024-01''" "Some ''2024-12''" "''quarter''"]
  have "list_all (\<lambda>d. total d = eon d + pgnig d + mpwik d)
        (displayData (projr (allMonthly example_chartData)) 12
           (Some ''2024-01'') (Some ''2024-12'') ''quarter'')"
    unfolding list_all_iff by blast
  with h ev show ?thesis by blast
qed

subsection \<open>The timeline as a function of the contributions\<close>

lemma allocate_record_contributions:
  "allocate_record prov d pm =
     (case record_contributions prov d of
        Inl e \<Rightarrow> Inl e
      | Inr cs \<Rightarrow> Inr (fold add_contribution cs pm))"
proof -
  have "fold add_contribution (map (\<lambda>ym. (prov, ym, x)) months) pm = fold (add_month prov x) months pm"
    for x months
    by (induction months arbitrary: pm) (simp_all add: add_contribution_def)
  then show ?thesis
    by (simp add: allocate_record_def record_contributions_def split: option.splits sum.splits)
qed

lemma allocate_data_contributions:
  "allocate_data prov ds pm =
     (case data_contributions prov ds of
        Inl e \<Rightarrow> Inl e
      | Inr cs \<Rightarrow> Inr (fold add_contribution cs pm))"
  by (induction ds arbitrary: pm) (simp_all add: allocate_record_contributions split: sum.splits)

lemma allocate_series_contributions:
  "allocate_series ss pm =
     (case contributions ss of
        Inl e \<Rightarrow> Inl e
      | Inr cs \<Rightarrow> Inr (fold add_contribution cs pm))"
  by (induction ss arbitrary: pm) (simp_all add: allocate_data_contributions split: sum.splits)

lemma row_of_add_contribution:
  "row_of (add_contribution c pm) ym =
     (if fst (snd c) = ym
      then (row_of pm ym)\<lparr>vals := (vals (row_of pm ym))(fst c \<mapsto> num_or_0 (vals (row_of pm ym) (fst c)) + snd (snd c))\<rparr>
      else row_of pm ym)"
  by (auto simp: row_of_def add_contribution_def add_month_def Let_def update_conv')

lemma cell_add_contribution:
  "num_or_0 (vals (row_of (add_contribution c pm) ym) k) =
     num_or_0 (vals (row_of pm ym) k) + (if fst c = k \<and> fst (snd c) = ym then snd (snd c) else 0)"
  by (simp add: row_of_add_contribution num_or_0_def)

lemma cell_fold_contributions:
  "num_or_0 (vals (row_of (fold add_contribution cs pm) ym) k) =
     num_or_0 (vals (row_of pm ym) k) + month_sum cs ym k"
proof (induction cs arbitrary: pm)
  case Nil
  show ?case by (simp add: month_sum_def)
next
  case (Cons c cs)
  have "month_sum (c # cs) ym k = (if fst c = k \<and> fst (snd c) = ym then snd (snd c) else 0) + month_sum cs ym k"
    by (simp add: month_sum_def)
  then show ?case
    by (simp add: Cons cell_add_contribution)
qed

lemma month_row_of_add_contribution:
  "month (row_of (add_contribution c pm) ym) = month (row_of pm ym)"
  by (simp add: row_of_add_contribution)

lemma keys_add_contribution:
  "fst ` set (add_contribution c pm) = insert (fst (snd c)) (fst ` set pm)"
  by (simp add: add_contribution_def add_month_def Let_def dom_update)

lemma keys_fold_contributions:
  "fst ` set (fold add_contribution cs pm) = fst ` set pm \<union> touched_months cs"
  by (induction cs arbitrary: pm) (auto simp: keys_add_contribution touched_months_def)

lemma distinct_fold_contributions:
  "distinct (map fst pm) \<Longrightarrow> distinct (map fst (fold add_contribution cs pm))"
  by (induction cs arbitrary: pm)
     (simp_all add: add_contribution_def add_month_def Let_def distinct_update)

lemma month_row_of:
  assumes "\<forall>kr \<in> set pm. month (snd kr) = fst kr"
  shows "month (row_of pm ym) = ym"
proof (cases "map_of pm ym")
  case None
  then show ?thesis by (simp add: row_of_def)
next
  case (Some r)
  then have "(ym, r) \<in> set pm" by (rule map_of_SomeD)
  with assms have "month r = ym" by force
  with Some show ?thesis by (simp add: row_of_def)
qed

lemma add_contribution_update:
  "add_contribution c pm =
     AList.update (fst (snd c))
       ((row_of pm (fst (snd c)))\<lparr>vals := (vals (row_of pm (fst (snd c))))
           (fst c \<mapsto> num_or_0 (vals (row_of pm (fst (snd c))) (fst c)) + snd (snd c))\<rparr>) pm"
  by (simp add: add_contribution_def add_month_def Let_def row_of_def)

lemma month_add_contribution:
  assumes "\<forall>kr \<in> set pm. month (snd kr) = fst kr"
  shows "\<forall>kr \<in> set (add_contribution c pm). month (snd kr) = fst kr"
proof
  fix kr assume "kr \<in> set (add_contribution c pm)"
  then have "kr \<in> set pm \<or> (fst kr = fst (snd c) \<and> month (snd kr) = month (row_of pm (fst (snd c))))"
    unfolding add_contribution_update
    using set_update_subset [of "fst (snd c)" _ pm] by fastforce
  then show "month (snd kr) = fst kr"
    using assms month_row_of [OF assms] by auto
qed

lemma month_fold_contributions:
  "\<forall>kr \<in> set pm. month (snd kr) = fst kr \<Longrightarrow>
   \<forall>kr \<in> set (fold add_contribution cs pm). month (snd kr) = fst kr"
proof (induction cs arbitrary: pm)
  case Nil
  then show ?case by simp
next
  case (Cons c cs)
  from month_add_contribution [OF Cons.prems]
  have "\<forall>kr \<in> set (add_contribution c pm). month (snd kr) = fst kr" .
  from Cons.IH [OF this] show ?case by simp
qed

lemma round_row_explicit:
  "round_row row =
     \<lparr>month = month row,
      vals = [''eon'' \<mapsto> round2 (num_or_0 (vals row ''eon'')),
              ''pgnig'' \<mapsto> round2 (num_or_0 (vals row ''pgnig'')),
              ''mpwik'' \<mapsto> round2 (num_or_0 (vals row ''mpwik''))]\<rparr>"
  by (simp add: round_row_def)

lemma sorted_keys_props:
  "sorted (sorted_keys cs)" "distinct (sorted_keys cs)" "set (sorted_keys cs) = touched_months cs"
  by (simp_all add: sorted_keys_def touched_months_def)

lemma timeline_of_contributions:
  "map round_row (sort_key month (map snd (fold add_contribution cs [])))
   = map (timeline_row cs) (sorted_keys cs)"
proof -
  let ?pm = "fold add_contribution cs []"
  have mon: "\<forall>kr \<in> set ?pm. month (snd kr) = fst kr"
    by (rule month_fold_contributions) simp
  have dist: "distinct (map fst ?pm)"
    by (rule distinct_fold_contributions) simp
  have keys: "set (map fst ?pm) = touched_months cs"
    using keys_fold_contributions [of cs "[]"] by simp
  have "map month (map snd ?pm) = map fst ?pm"
    using mon by simp
  then have "map month (sort_key month (map snd ?pm)) = sort (map fst ?pm)"
    by (simp only: map_sort_key)
  also have "\<dots> = sorted_keys cs"
    using dist keys by (intro sorted_distinct_set_unique) (simp_all add: sorted_keys_props)
  finally have months: "map month (sort_key month (map snd ?pm)) = sorted_keys cs" .
  have row: "round_row r = timeline_row cs (month r)" if "r \<in> set (sort_key month (map snd ?pm))" for r
  proof -
    from that obtain k where in_pm: "(k, r) \<in> set ?pm" by auto
    with mon have k: "month r = k" by force
    from in_pm dist have "map_of ?pm k = Some r" by simp
    then have r: "row_of ?pm (month r) = r" by (simp add: row_of_def k)
    have "num_or_0 (vals r p) = month_sum cs (month r) p" for p
      using cell_fold_contributions [of cs "[]" "month r" p] r
      by (simp add: row_of_def num_or_0_def)
    then show ?thesis
      by (simp add: round_row_explicit timeline_row_def)
  qed
  have "map round_row (sort_key month (map snd ?pm))
      = map (\<lambda>r. timeline_row cs (month r)) (sort_key month (map snd ?pm))"
    using row by (intro map_cong) simp_all
  also have "\<dots> = map (timeline_row cs) (map month (sort_key month (map snd ?pm)))"
    by (simp add: comp_def)
  finally show ?thesis by (simp only: months)
qed

lemma allMonthly_characterised:
  "allMonthly chartData =
     (case contributions chartData of
        Inl e \<Rightarrow> Inl e
      | Inr cs \<Rightarrow> Inr (map (timeline_row cs) (sorted_keys cs)))"
proof (cases "chartData = []")
  case True
  then show ?thesis by (simp add: allMonthly_def sorted_keys_def)
next
  case False
  then show ?thesis
    by (simp add: allMonthly_def allocate_series_contributions timeline_of_contributions
          split: sum.splits)
qed

subsection \<open>The rows of the timeline\<close>


lemma round2_zero: "round2 0 = 0"
  by (rule round2_of_cent) simp

lemma month_sum_none:
  assumes "\<forall>c \<in> set cs. \<not> (fst c = k \<and> fst (snd c) = ym)"
  shows "month_sum cs ym k = 0"
proof -
  from assms have "filter (\<lambda>c. fst c = k \<and> fst (snd c) = ym) cs = []"
    by (simp add: filter_empty_conv)
  then show ?thesis by (simp add: month_sum_def)
qed




















subsection \<open>Unknown providers\<close>

lemma data_contributions_provider:
  "data_contributions prov ds = Inr cs \<Longrightarrow> \<forall>c \<in> set cs. fst c = prov"
proof (induction ds arbitrary: cs)
  case Nil
  then show ?case by simp
next
  case (Cons d ds)
  then obtain a b where a: "record_contributions prov d = Inr a"
      and b: "data_contributions prov ds = Inr b" and cs: "cs = a @ b"
    by (auto split: sum.splits)
  from a have "\<forall>c \<in> set a. fst c = prov"
    by (auto simp: record_contributions_def split: if_splits option.splits sum.splits)
  with Cons.IH [OF b] cs show ?case by auto
qed

lemma contributions_known_only:
  "contributions ss = Inr cs \<Longrightarrow>
   contributions (known_only ss) = Inr (filter (\<lambda>c. known_provider (fst c)) cs)"
proof (induction ss arbitrary: cs)
  case Nil
  then show ?case by (simp add: known_only_def)
next
  case (Cons s ss)
  then obtain a b where a: "data_contributions (provider s) (data s) = Inr a"
      and b: "contributions ss = Inr b" and cs: "cs = a @ b"
    by (auto split: sum.splits)
  have ih: "contributions (known_only ss) = Inr (filter (\<lambda>c. known_provider (fst c)) b)"
    by (rule Cons.IH [OF b])
  have prov: "\<forall>c \<in> set a. fst c = provider s"
    by (rule data_contributions_provider [OF a])
  show ?case
  proof (cases "known_provider (provider s)")
    case True
    with prov have "filter (\<lambda>c. known_provider (fst c)) a = a"
      by (simp add: filter_id_conv)
    with True a ih cs show ?thesis
      using ih by (simp add: known_only_def)
  next
    case False
    with prov have "filter (\<lambda>c. known_provider (fst c)) a = []"
      by (simp add: filter_empty_conv)
    with False ih cs show ?thesis
      by (simp add: known_only_def)
  qed
qed

lemma month_sum_known:
  "known_provider k \<Longrightarrow> month_sum (filter (\<lambda>c. known_provider (fst c)) cs) ym k = month_sum cs ym k"
proof -
  assume k: "known_provider k"
  have "filter (\<lambda>c. fst c = k \<and> fst (snd c) = ym) (filter (\<lambda>c. known_provider (fst c)) cs)
      = filter (\<lambda>c. fst c = k \<and> fst (snd c) = ym) cs"
    using k by (auto intro: filter_cong)
  then show ?thesis by (simp add: month_sum_def)
qed

lemma timeline_row_known:
  "timeline_row (filter (\<lambda>c. known_provider (fst c)) cs) ym = timeline_row cs ym"
proof -
  have "known_provider ''eon''" "known_provider ''pgnig''" "known_provider ''mpwik''"
    by (simp_all add: known_provider_def)
  then show ?thesis
    by (simp add: timeline_row_def month_sum_known)
qed

text \<open>
  Claim C8, as stated, fails: a record of an unknown provider still creates the row of
  each of its months. One such record for January 2024 gives a timeline of one row
  (with 0 for the three known providers), and no row once the record is removed.
\<close>

theorem unknown_provider_row_counterexample:
  "allMonthly (known_only
      [\<lparr>provider = ''tauron'', data = [\<lparr>period_start = Some ''2024-01-01'',
          period_end = Some ''2024-01-31'', cost_gross = Some 100, is_estimate = False\<rparr>]\<rparr>])
     = Inr []
   \<and> length (projr (allMonthly
      [\<lparr>provider = ''tauron'', data = [\<lparr>period_start = Some ''2024-01-01'',
          period_end = Some ''2024-01-31'', cost_gross = Some 100, is_estimate = False\<rparr>]\<rparr>])) = 1
   \<and> allMonthly (known_only
      [\<lparr>provider = ''tauron'', data = [\<lparr>period_start = Some ''2024-01-01'',
          period_end = Some ''2024-01-31'', cost_gross = Some 100, is_estimate = False\<rparr>]\<rparr>])
     \<noteq> allMonthly
      [\<lparr>provider = ''tauron'', data = [\<lparr>period_start = Some ''2024-01-01'',
          period_end = Some ''2024-01-31'', cost_gross = Some 100, is_estimate = False\<rparr>]\<rparr>]"
  by (simp add: known_only_def known_provider_def eval_allocator eval_strings)

text \<open>
  Claim C8, amended. Records of providers other than \<^verbatim>\<open>eon\<close>, \<^verbatim>\<open>pgnig\<close> and \<^verbatim>\<open>mpwik\<close> change
  no value and no order of the timeline: the timeline of the input without them is the
  timeline of the whole input without the rows of the months that only unknown providers
  touched, and in those rows the three fields are 0. Every row carries only the fields
  \<^verbatim>\<open>eon\<close>, \<^verbatim>\<open>pgnig\<close> and \<^verbatim>\<open>mpwik\<close> beside its month.
\<close>

theorem unknown_providers_add_only_zero_rows:
  assumes "list_all (\<lambda>s. provider s \<noteq> ''month'') chartData"
    and "allMonthly chartData = Inr rows"
  shows "\<exists>cs. contributions (known_only chartData) = Inr cs
     \<and> allMonthly (known_only chartData) = Inr (filter (\<lambda>r. month r \<in> touched_months cs) rows)
     \<and> (\<forall>r \<in> set rows. month r \<notin> touched_months cs \<longrightarrow>
           vals r = [''eon'' \<mapsto> 0, ''pgnig'' \<mapsto> 0, ''mpwik'' \<mapsto> 0])
     \<and> (\<forall>r \<in> set rows. dom (vals r) = {''eon'', ''pgnig'', ''mpwik''})"
proof -
  from assms(2) obtain cs0 where cs0: "contributions chartData = Inr cs0"
      and rows: "rows = map (timeline_row cs0) (sorted_keys cs0)"
    by (auto simp: allMonthly_characterised split: sum.splits)
  let ?cs = "filter (\<lambda>c. known_provider (fst c)) cs0"
  have cs: "contributions (known_only chartData) = Inr ?cs"
    by (rule contributions_known_only [OF cs0])
  have sub: "touched_months ?cs \<subseteq> touched_months cs0"
    by (auto simp: touched_months_def)
  have keys: "filter (\<lambda>ym. ym \<in> touched_months ?cs) (sorted_keys cs0) = sorted_keys ?cs"
    using sub
    by (intro sorted_distinct_set_unique) (auto simp: sorted_keys_props sorted_wrt_filter)
  have "filter (\<lambda>r. month r \<in> touched_months ?cs) rows
      = map (timeline_row cs0) (filter (\<lambda>ym. ym \<in> touched_months ?cs) (sorted_keys cs0))"
    unfolding rows by (simp add: filter_map comp_def timeline_row_def)
  also have "\<dots> = map (timeline_row ?cs) (sorted_keys ?cs)"
    by (simp add: keys timeline_row_known)
  finally have out: "allMonthly (known_only chartData)
      = Inr (filter (\<lambda>r. month r \<in> touched_months ?cs) rows)"
    by (simp add: allMonthly_characterised cs)
  have zero: "vals r = [''eon'' \<mapsto> 0, ''pgnig'' \<mapsto> 0, ''mpwik'' \<mapsto> 0]"
    if r: "r \<in> set rows" and nt: "month r \<notin> touched_months ?cs" for r
  proof -
    from r obtain ym where ym: "r = timeline_row cs0 ym" unfolding rows by auto
    then have m: "month r = ym" by (simp add: timeline_row_def)
    have "month_sum cs0 ym k = 0" if k: "known_provider k" for k
    proof (rule month_sum_none, rule ballI)
      fix c assume c: "c \<in> set cs0"
      show "\<not> (fst c = k \<and> fst (snd c) = ym)"
      proof
        assume "fst c = k \<and> fst (snd c) = ym"
        with c k have "c \<in> set ?cs" "fst (snd c) = ym" by simp_all
        then have "ym \<in> touched_months ?cs" by (force simp: touched_months_def)
        with nt m show False by simp
      qed
    qed
    then show ?thesis
      by (simp add: ym timeline_row_def known_provider_def round2_zero)
  qed
  have dom: "dom (vals r) = {''eon'', ''pgnig'', ''mpwik''}" if "r \<in> set rows" for r
    using that unfolding rows by (auto simp: timeline_row_def split: if_splits)
  from cs out zero dom show ?thesis by blast
qed

theorem unknown_providers_add_only_zero_rows_witness:
  "list_all (\<lambda>s. provider s \<noteq> ''month'') (example_unknown_provider @ example_chartData)
   \<and> allMonthly (example_unknown_provider @ example_chartData)
      = Inr (projr (allMonthly (example_unknown_provider @ example_chartData)))
   \<and> map (\<lambda>r. (month r, vals r ''eon'', vals r ''pgnig'', vals r ''mpwik'', vals r ''tauron''))
        (projr (allMonthly (example_unknown_provider @ example_chartData)))
      = [(''2023-12'', Some 0, Some 0, Some 0, None),
         (''2024-01'', Some (3333 / 100), Some 0, Some 0, None),
         (''2024-02'', Some (3333 / 100), Some (6667 / 100), Some 0, None),
         (''2024-03'', Some (3333 / 100), Some (6667 / 100), Some 0, None),
         (''2024-04'', Some 0, Some (6667 / 100), Some 0, None)]
   \<and> map month (projr (allMonthly (known_only (example_unknown_provider @ example_chartData))))
      = [''2024-01'', ''2024-02'', ''2024-03'', ''2024-04'']
   \<and> (\<exists>cs. contributions (known_only (example_unknown_provider @ example_chartData)) = Inr cs
         \<and> allMonthly (known_only (example_unknown_provider @ example_chartData))
            = Inr (filter (\<lambda>r. month r \<in> touched_months cs)
                     (projr (allMonthly (example_unknown_provider @ example_chartData)))))"
proof -
  let ?M = "example_unknown_provider @ example_chartData"
  have h0: "list_all (\<lambda>s. provider s \<noteq> ''month'') ?M"
    by (simp add: example_chartData_def example_unknown_provider_def)
  have "\<not> isl (allMonthly ?M)"
    by code_simp
  then have h: "allMonthly ?M = Inr (projr (allMonthly ?M))"
    by simp
  have ev: "map (\<lambda>r. (month r, vals r ''eon'', vals r ''pgnig'', vals r ''mpwik'', vals r ''tauron''))
        (projr (allMonthly ?M))
      = [(''2023-12'', Some 0, Some 0, Some 0, None),
         (''2024-01'', Some (3333 / 100), Some 0, Some 0, None),
         (''2024-02'', Some (3333 / 100), Some (6667 / 100), Some 0, None),
         (''2024-03'', Some (3333 / 100), Some (6667 / 100), Some 0, None),
         (''2024-04'', Some 0, Some (6667 / 100), Some 0, None)]"
    by code_simp
  have ev2: "map month (projr (allMonthly (known_only ?M)))
      = [''2024-01'', ''2024-02'', ''2024-03'', ''2024-04'']"
    by code_simp
  from unknown_providers_add_only_zero_rows [OF h0 h]
  have "\<exists>cs. contributions (known_only ?M) = Inr cs
         \<and> allMonthly (known_only ?M)
            = Inr (filter (\<lambda>r. month r \<in> touched_months cs) (projr (allMonthly ?M)))"
    by blast
  with h0 h ev ev2 show ?thesis by blast
qed

end
